theory Spec2Isabelle
  imports Main
begin

section \<open>The preprocessor state of ctags/main/get.c\<close>

text \<open>
  A shallow embedding of \<^verbatim>\<open>src/ctags/main/get.c\<close>: the conditional stack, the
  character skippers, the driver \<^verbatim>\<open>cppGetc\<close> and the argument-list extractor.
  C \<^verbatim>\<open>int\<close> values that carry characters are \<^typ>\<open>int\<close>; the unsigned nesting
  level is a \<^typ>\<open>nat\<close> (it is guarded on both sides, so it never wraps).
\<close>

subsection \<open>Limits and characters\<close>

definition MaxCppNestingLevel :: nat where
  "MaxCppNestingLevel = 20"

definition MaxDirectiveName :: nat where
  "MaxDirectiveName = 10"

definition EOF :: int where
  "EOF = - 1"

definition SPACE :: int where
  "SPACE = 32"

definition TAB :: int where
  "TAB = 9"

definition NEWLINE :: int where
  "NEWLINE = 10"

definition BACKSLASH :: int where
  "BACKSLASH = 92"

definition DOUBLE_QUOTE :: int where
  "DOUBLE_QUOTE = 34"

definition SINGLE_QUOTE :: int where
  "SINGLE_QUOTE = 39"

subsection \<open>Data declarations\<close>

record conditionalInfo =
  ignoreAllBranches :: bool
  singleBranch :: bool
  branchChosen :: bool
  ignoring :: bool

datatype eState =
  DRCTV_NONE | DRCTV_DEFINE | DRCTV_HASH | DRCTV_IF | DRCTV_PRAGMA | DRCTV_UNDEF

text \<open>
  The input file behind \<^verbatim>\<open>getcFromInputFile\<close>, \<^verbatim>\<open>fileUngetc\<close> and
  \<^verbatim>\<open>fileGetNthPrevC\<close>: characters given back (last given back first), the bytes
  not read yet, and the bytes read so far (last read first).
\<close>

record inputFile =
  ungetchBuf :: "int list"
  pending :: "char list"
  consumed :: "char list"

text \<open>
  The struct \<^verbatim>\<open>cppState\<close> with its nested struct \<^verbatim>\<open>directive\<close> flattened
  (\<^verbatim>\<open>Cpp.directive.state\<close> is \<open>directive_state\<close>), together with the other
  globals the functions touch: the static \<^verbatim>\<open>BraceFormat\<close>, the input \<^verbatim>\<open>File\<close>
  and the tags handed to \<^verbatim>\<open>makeTagEntry\<close> (name and the parameterized flag).
\<close>

record cppState =
  ungetch :: int
  ungetch2 :: int
  resolveRequired :: bool
  hasAtLiteralStrings :: bool
  hasCxxRawLiteralStrings :: bool
  directive_state :: eState
  directive_accept :: bool
  directive_name :: string
  directive_nestLevel :: nat
  directive_ifdef :: "conditionalInfo list"
  BraceFormat :: bool
  File :: inputFile
  tagEntries :: "(string \<times> bool) list"

text \<open>
  What get.c takes from its headers and from the options record, none of it under
  \<^verbatim>\<open>src/\<close>: \<^verbatim>\<open>Option.if0\<close>, the two sentinels of get.h, the identifier
  macros \<^verbatim>\<open>isident\<close> and \<^verbatim>\<open>isident1\<close>, and the three conditions under which
  \<^verbatim>\<open>makeDefineTag\<close> emits a tag. They are parameters of the model.
\<close>

record cppEnv =
  Option_if0 :: bool
  STRING_SYMBOL :: int
  CHAR_SYMBOL :: int
  isident :: "int \<Rightarrow> bool"
  isident1 :: "int \<Rightarrow> bool"
  includingDefineTags :: bool
  isHeaderFile :: bool
  Option_include_fileScope :: bool

subsection \<open>Initialisation and statement marks\<close>

definition cppInit :: "bool \<Rightarrow> bool \<Rightarrow> bool \<Rightarrow> cppState \<Rightarrow> cppState" where
  "cppInit state hasAt hasRaw st =
     st\<lparr> BraceFormat := state,
         ungetch := 0,
         ungetch2 := 0,
         resolveRequired := False,
         hasAtLiteralStrings := hasAt,
         hasCxxRawLiteralStrings := hasRaw,
         directive_state := DRCTV_NONE,
         directive_accept := True,
         directive_nestLevel := 0,
         directive_ifdef := (directive_ifdef st)
           [0 := \<lparr>ignoreAllBranches = False, singleBranch = False,
                  branchChosen = False, ignoring = False\<rparr>],
         directive_name := [] \<rparr>"

definition cppBeginStatement :: "cppState \<Rightarrow> cppState" where
  "cppBeginStatement st = st\<lparr>resolveRequired := True\<rparr>"

definition cppEndStatement :: "cppState \<Rightarrow> cppState" where
  "cppEndStatement st = st\<lparr>resolveRequired := False\<rparr>"

subsection \<open>The conditional stack\<close>

definition currentConditional :: "cppState \<Rightarrow> conditionalInfo" where
  "currentConditional st = directive_ifdef st ! directive_nestLevel st"

definition isIgnore :: "cppState \<Rightarrow> bool" where
  "isIgnore st = ignoring (directive_ifdef st ! directive_nestLevel st)"

definition setIgnore :: "bool \<Rightarrow> cppState \<Rightarrow> bool \<times> cppState" where
  "setIgnore ignore st =
     (ignore,
      st\<lparr>directive_ifdef := (directive_ifdef st)
           [directive_nestLevel st :=
              (directive_ifdef st ! directive_nestLevel st)\<lparr>ignoring := ignore\<rparr>]\<rparr>)"

definition isIgnoreBranch :: "cppState \<Rightarrow> bool \<times> cppState" where
  "isIgnoreBranch st =
     (let st1 =
        (if resolveRequired st \<and> \<not> BraceFormat st
         then st\<lparr>directive_ifdef := (directive_ifdef st)
                [directive_nestLevel st :=
                   (currentConditional st)\<lparr>singleBranch := True\<rparr>]\<rparr>
         else st);
          ifdef = currentConditional st1
      in (ignoreAllBranches ifdef \<or> (branchChosen ifdef \<and> singleBranch ifdef), st1))"

definition chooseBranch :: "cppState \<Rightarrow> cppState" where
  "chooseBranch st =
     (if \<not> BraceFormat st
      then let ifdef = currentConditional st
           in st\<lparr>directive_ifdef := (directive_ifdef st)
                [directive_nestLevel st :=
                   ifdef\<lparr>branchChosen := (singleBranch ifdef \<or> resolveRequired st)\<rparr>]\<rparr>
      else st)"

definition pushConditional :: "cppEnv \<Rightarrow> bool \<Rightarrow> cppState \<Rightarrow> bool \<times> cppState" where
  "pushConditional env firstBranchChosen st =
     (let ignoreAll = isIgnore st
      in if directive_nestLevel st < MaxCppNestingLevel - 1
         then
           let st1 = st\<lparr>directive_nestLevel := directive_nestLevel st + 1\<rparr>;
               single = resolveRequired st1;
               ifdef = (currentConditional st1)
                 \<lparr> ignoreAllBranches := ignoreAll,
                   singleBranch := single,
                   branchChosen := firstBranchChosen,
                   ignoring := (ignoreAll \<or>
                      (\<not> firstBranchChosen \<and> \<not> BraceFormat st1 \<and>
                       (single \<or> \<not> Option_if0 env))) \<rparr>
           in (ignoring ifdef,
               st1\<lparr>directive_ifdef :=
                    (directive_ifdef st1)[directive_nestLevel st1 := ifdef]\<rparr>)
         else (False, st))"

definition popConditional :: "cppState \<Rightarrow> bool \<times> cppState" where
  "popConditional st =
     (let st1 = (if directive_nestLevel st > 0
                 then st\<lparr>directive_nestLevel := directive_nestLevel st - 1\<rparr>
                 else st)
      in (isIgnore st1, st1))"

text \<open>
  The calls that change the conditional stack or the flag it reads, as one datatype, and
  a run of them from left to right.
\<close>

datatype condCall = Push bool | Pop | BeginStatement | EndStatement

fun condStep :: "cppEnv \<Rightarrow> cppState \<Rightarrow> condCall \<Rightarrow> cppState" where
  "condStep env st (Push b) = snd (pushConditional env b st)"
| "condStep env st Pop = snd (popConditional st)"
| "condStep env st BeginStatement = cppBeginStatement st"
| "condStep env st EndStatement = cppEndStatement st"

definition condRun :: "cppEnv \<Rightarrow> cppState \<Rightarrow> condCall list \<Rightarrow> cppState" where
  "condRun env st calls = foldl (condStep env) st calls"

text \<open>
  The static initialiser of \<^verbatim>\<open>Cpp\<close> and \<^verbatim>\<open>BraceFormat\<close> (every frame of the
  array is zero-initialised), over a given input file.
\<close>

definition Cpp :: "inputFile \<Rightarrow> cppState" where
  "Cpp f =
     \<lparr> ungetch = 0, ungetch2 = 0,
       resolveRequired = False,
       hasAtLiteralStrings = False,
       hasCxxRawLiteralStrings = False,
       directive_state = DRCTV_NONE,
       directive_accept = False,
       directive_name = [],
       directive_nestLevel = 0,
       directive_ifdef = replicate MaxCppNestingLevel
         \<lparr>ignoreAllBranches = False, singleBranch = False,
          branchChosen = False, ignoring = False\<rparr>,
       BraceFormat = False,
       File = f,
       tagEntries = [] \<rparr>"

definition openFile :: "char list \<Rightarrow> inputFile" where
  "openFile bytes = \<lparr>ungetchBuf = [], pending = bytes, consumed = []\<rparr>"

section \<open>The argument-list extractor\<close>

subsection \<open>C strings and the library functions used\<close>

text \<open>
  A \<^verbatim>\<open>char *\<close> buffer is a list of bytes; the string it holds ends before its
  first NUL. A read or a write outside the list, and a signed \<^verbatim>\<open>int\<close> counter
  stepping past \<^verbatim>\<open>INT_MAX\<close>, are undefined behaviour in C: the model returns
  \<open>None\<close> there.
\<close>

definition NUL :: char where
  "NUL = CHR 0x00"

definition INT_MAX :: nat where
  "INT_MAX = 2147483647"

definition cstring :: "char list \<Rightarrow> char list" where
  "cstring b = takeWhile (\<lambda>c. c \<noteq> NUL) b"

definition strlen :: "char list \<Rightarrow> nat" where
  "strlen b = length (cstring b)"

definition readBuf :: "char list \<Rightarrow> nat \<Rightarrow> char option" where
  "readBuf b k = (if k < length b then Some (b ! k) else None)"

text \<open>\<^verbatim>\<open>isspace\<close> of ctype.h in the C locale: space, \<^verbatim>\<open>\t \n \v \f \r\<close>.\<close>

definition isspace :: "char \<Rightarrow> bool" where
  "isspace c = (c = CHR '' '' \<or> c = CHR 0x09 \<or> c = CHR 0x0A \<or> c = CHR 0x0B
     \<or> c = CHR 0x0C \<or> c = CHR 0x0D)"

text \<open>
  \<^verbatim>\<open>strstr\<close> and \<^verbatim>\<open>strchr\<close> of string.h on the string contents: the result
  pointer is the rest of the string from the first match on, \<open>None\<close> is NULL.
\<close>

fun strstr :: "char list \<Rightarrow> char list \<Rightarrow> char list option" where
  "strstr [] name = (if name = [] then Some [] else None)"
| "strstr (c # cs) name =
     (if take (length name) (c # cs) = name then Some (c # cs) else strstr cs name)"

fun strchr :: "char list \<Rightarrow> char \<Rightarrow> char list option" where
  "strchr [] c = None"
| "strchr (x # xs) c = (if x = c then Some (x # xs) else strchr xs c)"

subsection \<open>stripCodeBuffer\<close>

datatype ParseState =
  st_none_t | st_escape_t | st_c_comment_t | st_cpp_comment_t
  | st_double_quote_t | st_single_quote_t

text \<open>
  The local variables of \<^verbatim>\<open>stripCodeBuffer\<close> with the buffer they index.
  \<open>sv_stores\<close> is not in the C code: it lists, in order, the indices the function
  has stored to, so that properties of where it writes can be stated.
\<close>

record stripVars =
  sv_buf :: "char list"
  sv_i :: nat
  sv_pos :: nat
  sv_state :: ParseState
  sv_prev_state :: ParseState
  sv_stores :: "nat list"

text \<open>\<^verbatim>\<open>buf[pos++] = c\<close>\<close>

definition putChar :: "char \<Rightarrow> stripVars \<Rightarrow> stripVars option" where
  "putChar c v =
     (if sv_pos v < length (sv_buf v) \<and> sv_pos v < INT_MAX
      then Some (v\<lparr> sv_buf := (sv_buf v)[sv_pos v := c],
                    sv_pos := sv_pos v + 1,
                    sv_stores := sv_stores v @ [sv_pos v] \<rparr>)
      else None)"

text \<open>\<^verbatim>\<open>if ((pos > 0) && (buf[pos-1] != ' ')) buf[pos++] = ' ';\<close>\<close>

definition putSpace :: "stripVars \<Rightarrow> stripVars option" where
  "putSpace v =
     (if sv_pos v > 0
      then (case readBuf (sv_buf v) (sv_pos v - 1) of
              None \<Rightarrow> None
            | Some p \<Rightarrow> if p \<noteq> CHR '' '' then putChar (CHR '' '') v else Some v)
      else Some v)"

text \<open>The \<^verbatim>\<open>switch (buf[i])\<close> of the loop body, \<open>c\<close> being \<^verbatim>\<open>buf[i]\<close>.\<close>

definition stripSwitch :: "char \<Rightarrow> stripVars \<Rightarrow> stripVars option" where
  "stripSwitch c v =
     (if c = CHR ''/'' then
        (if sv_state v = st_none_t then
           (case readBuf (sv_buf v) (sv_i v + 1) of
              None \<Rightarrow> None
            | Some n \<Rightarrow>
                if n = CHR ''*'' then Some (v\<lparr>sv_state := st_c_comment_t\<rparr>)
                else if n = CHR ''/'' then Some (v\<lparr>sv_state := st_cpp_comment_t\<rparr>)
                else putChar (CHR ''/'') v)
         else if sv_state v = st_c_comment_t then
           (if sv_i v = 0 then None
            else case readBuf (sv_buf v) (sv_i v - 1) of
              None \<Rightarrow> None
            | Some p \<Rightarrow>
                if p = CHR ''*''
                then map_option (\<lambda>w. w\<lparr>sv_state := st_none_t\<rparr>) (putSpace v)
                else Some v)
         else Some v)
      else if c = CHR 0x22 then
        (if sv_state v = st_none_t then Some (v\<lparr>sv_state := st_double_quote_t\<rparr>)
         else if sv_state v = st_double_quote_t then Some (v\<lparr>sv_state := st_none_t\<rparr>)
         else Some v)
      else if c = CHR 0x27 then
        (if sv_state v = st_none_t then Some (v\<lparr>sv_state := st_single_quote_t\<rparr>)
         else if sv_state v = st_single_quote_t then Some (v\<lparr>sv_state := st_none_t\<rparr>)
         else Some v)
      else
        (if c = CHR 0x5C \<and> sv_state v \<noteq> st_escape_t then
           Some (v\<lparr>sv_prev_state := sv_state v, sv_state := st_escape_t\<rparr>)
         else if sv_state v = st_escape_t then
           Some (v\<lparr>sv_state := sv_prev_state v, sv_prev_state := st_none_t\<rparr>)
         else if c = CHR 0x0A \<and> sv_state v = st_cpp_comment_t then
           map_option (\<lambda>w. w\<lparr>sv_state := st_none_t\<rparr>) (putSpace v)
         else if sv_state v = st_none_t then
           (if isspace c then putSpace v else putChar c v)
         else Some v))"

text \<open>One turn of the loop: the switch on \<^verbatim>\<open>buf[i]\<close>, then \<^verbatim>\<open>++i\<close>.\<close>

definition stripStep :: "stripVars \<Rightarrow> stripVars option" where
  "stripStep v =
     (case readBuf (sv_buf v) (sv_i v) of
        None \<Rightarrow> None
      | Some c \<Rightarrow>
          (case stripSwitch c v of
             None \<Rightarrow> None
           | Some w \<Rightarrow> if sv_i w < INT_MAX then Some (w\<lparr>sv_i := sv_i w + 1\<rparr>) else None))"

lemma stripStep_measure:
  assumes "readBuf (sv_buf v) (sv_i v) = Some c" and "stripStep v = Some w"
  shows "length (sv_buf w) - sv_i w < length (sv_buf v) - sv_i v"
  using assms
  by (auto simp: stripStep_def stripSwitch_def putSpace_def putChar_def readBuf_def
      split: option.splits if_splits)

function stripLoop :: "stripVars \<Rightarrow> stripVars option" where
  "stripLoop v =
     (case readBuf (sv_buf v) (sv_i v) of
        None \<Rightarrow> None
      | Some c \<Rightarrow>
          if c \<noteq> NUL
          then (case stripStep v of None \<Rightarrow> None | Some w \<Rightarrow> stripLoop w)
          else Some v)"
  by pat_completeness auto
termination
  by (relation "measure (\<lambda>v. length (sv_buf v) - sv_i v)")
     (auto dest: stripStep_measure)

declare stripLoop.simps [simp del]

text \<open>
  The variables at the head of the loop after exactly \<open>k\<close> turns; \<open>None\<close> when the
  loop makes fewer turns than that.
\<close>

fun stripTurns :: "nat \<Rightarrow> stripVars \<Rightarrow> stripVars option" where
  "stripTurns 0 v = Some v"
| "stripTurns (Suc k) v =
     (case readBuf (sv_buf v) (sv_i v) of
        None \<Rightarrow> None
      | Some c \<Rightarrow>
          if c \<noteq> NUL
          then (case stripStep v of None \<Rightarrow> None | Some w \<Rightarrow> stripTurns k w)
          else None)"

text \<open>
  The whole function: the loop from \<^verbatim>\<open>i = 0, pos = 0\<close>, then
  \<^verbatim>\<open>buf[pos] = '\0'\<close>. \<open>stripCodeBufferVars\<close> keeps the final variables,
  \<open>stripCodeBuffer\<close> is the buffer left behind.
\<close>

definition stripStart :: "char list \<Rightarrow> stripVars" where
  "stripStart b = \<lparr> sv_buf = b, sv_i = 0, sv_pos = 0, sv_state = st_none_t,
                    sv_prev_state = st_none_t, sv_stores = [] \<rparr>"

definition stripCodeBufferVars :: "char list \<Rightarrow> stripVars option" where
  "stripCodeBufferVars b =
     (case stripLoop (stripStart b) of
        None \<Rightarrow> None
      | Some v \<Rightarrow>
          if sv_pos v < length (sv_buf v)
          then Some (v\<lparr> sv_buf := (sv_buf v)[sv_pos v := NUL],
                        sv_stores := sv_stores v @ [sv_pos v] \<rparr>)
          else None)"

definition stripCodeBuffer :: "char list \<Rightarrow> char list option" where
  "stripCodeBuffer b = map_option sv_buf (stripCodeBufferVars b)"

text \<open>
  Whether a text holds \<^verbatim>\<open>/*\<close> or \<^verbatim>\<open>//\<close>, the two character pairs at which
  \<^verbatim>\<open>stripCodeBuffer\<close> enters a comment.
\<close>

fun opensComment :: "char list \<Rightarrow> bool" where
  "opensComment (a # b # r) =
     (a = CHR ''/'' \<and> (b = CHR ''*'' \<or> b = CHR ''/'') \<or> opensComment (b # r))"
| "opensComment [a] = False"
| "opensComment [] = False"

subsection \<open>getArglistFromStr\<close>

text \<open>
  The \<^verbatim>\<open>for\<close> loop over \<^verbatim>\<open>end\<close>, started behind the opening parenthesis
  with \<^verbatim>\<open>level = 1\<close>: the characters it steps over before it stops, at the end of
  the string or with \<^verbatim>\<open>level\<close> no longer positive.
\<close>

fun scanLevel :: "int \<Rightarrow> char list \<Rightarrow> char list" where
  "scanLevel level [] = []"
| "scanLevel level (c # cs) =
     (if level > 0
      then c # scanLevel (if c = CHR ''('' then level + 1
                          else if c = CHR '')'' then level - 1 else level) cs
      else [])"

text \<open>
  \<^verbatim>\<open>getArglistFromStr (buf, name)\<close>. A pointer argument is \<open>None\<close> when it is
  NULL; \<open>name\<close> is given by the string it points to. The outer \<open>option\<close> of
  the result is the undefined behaviour of \<^verbatim>\<open>stripCodeBuffer\<close>, the inner one
  the returned pointer: \<open>Some None\<close> is NULL, \<open>Some (Some s)\<close> the duplicated
  string.
\<close>

definition getArglistFromStr ::
  "char list option \<Rightarrow> char list option \<Rightarrow> char list option option" where
  "getArglistFromStr buf name =
     (case (buf, name) of
        (None, _) \<Rightarrow> Some None
      | (_, None) \<Rightarrow> Some None
      | (Some b, Some n) \<Rightarrow>
          if n = [] then Some None
          else (case stripCodeBuffer b of
                  None \<Rightarrow> None
                | Some b1 \<Rightarrow>
                    (case strstr (cstring b1) n of
                       None \<Rightarrow> Some None
                     | Some start \<Rightarrow>
                         (case strchr start (CHR ''('') of
                            None \<Rightarrow> Some None
                          | Some start1 \<Rightarrow>
                              Some (Some (hd start1 # scanLevel 1 (tl start1)))))))"

text \<open>
  Opening minus closing parentheses of a text, for stating what the scan of
  \<^verbatim>\<open>getArglistFromStr\<close> returns.
\<close>

fun parenDepth :: "char list \<Rightarrow> int" where
  "parenDepth [] = 0"
| "parenDepth (c # cs) =
     (if c = CHR ''('' then 1 else if c = CHR '')'' then - 1 else 0) + parenDepth cs"

text \<open>
  Balanced parentheses: as many closing as opening ones, and no prefix with more closing
  than opening ones.
\<close>

definition balanced :: "char list \<Rightarrow> bool" where
  "balanced s \<longleftrightarrow> parenDepth s = 0 \<and> (\<forall>k \<le> length s. 0 \<le> parenDepth (take k s))"

subsection \<open>Invariants of the stripping loop\<close>

text \<open>
  What one pass through the switch can do to the variables: nothing but a change of
  state, or one store of a character at \<open>pos\<close> with \<open>pos\<close> advanced, after which the
  state is \<open>st_none_t\<close>.
\<close>

definition stored :: "char \<Rightarrow> stripVars \<Rightarrow> stripVars \<Rightarrow> bool" where
  "stored c v w \<longleftrightarrow>
     sv_buf w = (sv_buf v)[sv_pos v := c] \<and> sv_pos w = sv_pos v + 1
     \<and> sv_stores w = sv_stores v @ [sv_pos v] \<and> sv_i w = sv_i v
     \<and> sv_state w = st_none_t"

text \<open>
  The characters that can reach the output: no NUL, no quote, no backslash, and no white
  space other than the space character.
\<close>

definition okchar :: "char \<Rightarrow> bool" where
  "okchar c \<longleftrightarrow> c \<noteq> NUL \<and> c \<noteq> CHR 0x22 \<and> c \<noteq> CHR 0x27 \<and> c \<noteq> CHR 0x5C
     \<and> (isspace c \<longrightarrow> c = CHR '' '')"

definition kept :: "stripVars \<Rightarrow> stripVars \<Rightarrow> bool" where
  "kept v w \<longleftrightarrow>
     sv_buf w = sv_buf v \<and> sv_pos w = sv_pos v
     \<and> sv_stores w = sv_stores v \<and> sv_i w = sv_i v"

text \<open>
  The frame invariant of the loop over the original buffer \<open>b0\<close>: the buffer keeps its
  length, the write index is not ahead of the read index, the read index has not passed
  the terminator, nothing at or behind the read index has been touched, the byte before
  the read index is still the original one while inside a C comment, and every store so
  far went below the read index.
\<close>

definition stripInv :: "char list \<Rightarrow> stripVars \<Rightarrow> bool" where
  "stripInv b0 v \<longleftrightarrow>
     length (sv_buf v) = length b0
     \<and> sv_pos v \<le> sv_i v
     \<and> sv_i v \<le> strlen b0
     \<and> (\<forall>k. sv_i v \<le> k \<longrightarrow> k < length b0 \<longrightarrow> sv_buf v ! k = b0 ! k)
     \<and> (sv_state v = st_c_comment_t \<longrightarrow>
          0 < sv_i v \<and> sv_buf v ! (sv_i v - 1) = b0 ! (sv_i v - 1))
     \<and> (\<forall>k \<in> set (sv_stores v). k < sv_i v)"

text \<open>
  The shape of stripped text: only \<open>okchar\<close> characters, no space in front, no two
  spaces in a row.
\<close>

definition wfOut :: "char list \<Rightarrow> bool" where
  "wfOut out \<longleftrightarrow>
     (\<forall>c \<in> set out. okchar c)
     \<and> (out \<noteq> [] \<longrightarrow> hd out \<noteq> CHR '' '')
     \<and> (\<forall>k. Suc k < length out \<longrightarrow> out ! k = CHR '' '' \<longrightarrow> out ! Suc k \<noteq> CHR '' '')"

definition stripOut :: "stripVars \<Rightarrow> char list" where
  "stripOut v = take (sv_pos v) (sv_buf v)"

text \<open>
  Whether a text holds a slash directly followed by a quote or a backslash: dropping the
  literal or the escaped character that starts there can join the slash with what
  follows it.
\<close>

fun slashJoin :: "char list \<Rightarrow> bool" where
  "slashJoin (a # b # r) =
     (a = CHR ''/'' \<and> (b = CHR 0x22 \<or> b = CHR 0x27 \<or> b = CHR 0x5C) \<or> slashJoin (b # r))"
| "slashJoin [a] = False"
| "slashJoin [] = False"

text \<open>
  The invariant behind the removal of comments: the output so far opens no comment, and
  a slash at its end was stored in the turn before, from a slash of the input that is
  followed by neither \<^verbatim>\<open>*\<close> nor \<^verbatim>\<open>/\<close>.
\<close>

definition noCommentInv :: "char list \<Rightarrow> stripVars \<Rightarrow> bool" where
  "noCommentInv b0 v \<longleftrightarrow>
     \<not> opensComment (stripOut v)
     \<and> (0 < sv_pos v \<and> sv_buf v ! (sv_pos v - 1) = CHR ''/'' \<longrightarrow>
          sv_state v = st_none_t \<and> 0 < sv_i v \<and> b0 ! (sv_i v - 1) = CHR ''/''
          \<and> b0 ! sv_i v \<noteq> CHR ''*'' \<and> b0 ! sv_i v \<noteq> CHR ''/'')"

section \<open>Reading characters\<close>

subsection \<open>ctype.h in the C locale\<close>

definition isalpha :: "int \<Rightarrow> bool" where
  "isalpha c \<longleftrightarrow> (65 \<le> c \<and> c \<le> 90) \<or> (97 \<le> c \<and> c \<le> 122)"

definition isalnum :: "int \<Rightarrow> bool" where
  "isalnum c \<longleftrightarrow> isalpha c \<or> (48 \<le> c \<and> c \<le> 57)"

definition toupper :: "int \<Rightarrow> int" where
  "toupper c = (if 97 \<le> c \<and> c \<le> 122 then c - 32 else c)"

definition isspacetab :: "int \<Rightarrow> bool" where
  "isspacetab c \<longleftrightarrow> c = SPACE \<or> c = TAB"

text \<open>
  A concrete environment for the examples: \<^verbatim>\<open>Option.if0\<close> off, two sentinels above
  the ASCII range, and identifiers made of letters, digits, \<^verbatim>\<open>_\<close> and \<^verbatim>\<open>$\<close>
  (with \<^verbatim>\<open>~\<close> allowed in front).
\<close>

definition exampleEnv :: cppEnv where
  "exampleEnv =
     \<lparr> Option_if0 = False,
       STRING_SYMBOL = 211,
       CHAR_SYMBOL = 195,
       isident = (\<lambda>c. isalnum c \<or> c = 95 \<or> c = 36),
       isident1 = (\<lambda>c. isalpha c \<or> c = 95 \<or> c = 126 \<or> c = 36),
       includingDefineTags = True,
       isHeaderFile = False,
       Option_include_fileScope = True \<rparr>"

subsection \<open>The input file\<close>

text \<open>
  Modelled from the spec: the byte reader of read.c is not under \<^verbatim>\<open>src/\<close>. The spec
  gives it as \<^verbatim>\<open>readByte() -> int\<close>, \<^verbatim>\<open>unreadByte(c)\<close> and
  \<^verbatim>\<open>nthPrevByte(n) -> int\<close>: reading takes the character given back last, else the
  next byte of the file, else returns \<^verbatim>\<open>EOF\<close>; characters given back are read again
  in reverse order; the look-behind returns the byte \<open>n\<close> places before the byte read
  last, or the default where there is none.
\<close>

definition getcFromInputFile :: "cppState \<Rightarrow> int \<times> cppState" where
  "getcFromInputFile st =
     (case ungetchBuf (File st) of
        c # rest \<Rightarrow> (c, st\<lparr>File := (File st)\<lparr>ungetchBuf := rest\<rparr>\<rparr>)
      | [] \<Rightarrow>
          (case pending (File st) of
             [] \<Rightarrow> (EOF, st)
           | x # xs \<Rightarrow>
               (of_char x,
                st\<lparr>File := (File st)\<lparr>pending := xs, consumed := x # consumed (File st)\<rparr>\<rparr>)))"

definition fileUngetc :: "int \<Rightarrow> cppState \<Rightarrow> cppState" where
  "fileUngetc c st = st\<lparr>File := (File st)\<lparr>ungetchBuf := c # ungetchBuf (File st)\<rparr>\<rparr>"

definition fileGetNthPrevC :: "nat \<Rightarrow> int \<Rightarrow> cppState \<Rightarrow> int" where
  "fileGetNthPrevC n def st =
     (if n < length (consumed (File st)) then of_char (consumed (File st) ! n) else def)"

text \<open>
  What is left to read, for the termination of the loops: the bytes of the file and the
  characters given back, a given-back \<^verbatim>\<open>EOF\<close> not counted.
\<close>

definition fileSize :: "cppState \<Rightarrow> nat" where
  "fileSize st =
     length (filter (\<lambda>c. c \<noteq> EOF) (ungetchBuf (File st))) + length (pending (File st))"

lemma of_char_not_EOF: "(of_char x :: int) \<noteq> EOF"
proof -
  have "(of_char x :: int) = int (of_char x)" by (simp add: of_nat_of_char)
  then have "0 \<le> (of_char x :: int)" by simp
  then show ?thesis by (simp add: EOF_def)
qed

lemma getc_size:
  assumes "getcFromInputFile st = (c, st1)"
  shows "fileSize st1 \<le> fileSize st" and "c \<noteq> EOF \<Longrightarrow> fileSize st1 < fileSize st"
  using assms of_char_not_EOF
  by (auto simp: getcFromInputFile_def fileSize_def split: list.splits)

lemma getc_size_sym:
  assumes "(c, st1) = getcFromInputFile st"
  shows "fileSize st1 \<le> fileSize st" and "c \<noteq> EOF \<Longrightarrow> fileSize st1 < fileSize st"
  using getc_size [of st c st1] assms by simp_all

lemma getc_snd_size: "fileSize (snd (getcFromInputFile st)) \<le> fileSize st"
  using getc_size(1) [of st "fst (getcFromInputFile st)" "snd (getcFromInputFile st)"]
  by simp

lemma ungetc_size:
  "fileSize (fileUngetc c st) = fileSize st + (if c = EOF then 0 else 1)"
  by (simp add: fileUngetc_def fileSize_def)

lemma getc_ungetc_size:
  assumes "getcFromInputFile st = (c, st1)"
  shows "fileSize (fileUngetc c st1) \<le> fileSize st"
  using getc_size [OF assms] by (cases "c = EOF") (simp_all add: ungetc_size)

subsection \<open>Directive words and identifiers\<close>

text \<open>
  \<^verbatim>\<open>readDirective\<close>: the \<^verbatim>\<open>for\<close> loop from index \<open>i\<close>, with the characters
  stored so far. \<^verbatim>\<open>maxLength - 1\<close> is unsigned arithmetic.
\<close>

definition unsignedPred :: "nat \<Rightarrow> nat" where
  "unsignedPred n = (if n = 0 then 4294967295 else n - 1)"

function readDirectiveLoop ::
  "nat \<Rightarrow> nat \<Rightarrow> int \<Rightarrow> char list \<Rightarrow> cppState \<Rightarrow> int \<times> char list \<times> cppState" where
  "readDirectiveLoop i maxLength c name st =
     (if i < unsignedPred maxLength
      then (if i > 0
            then (case getcFromInputFile st of
                    (c1, st1) \<Rightarrow>
                      if c1 = EOF \<or> \<not> isalpha c1
                      then (c1, name, fileUngetc c1 st1)
                      else readDirectiveLoop (i + 1) maxLength c1 (name @ [char_of c1]) st1)
            else readDirectiveLoop (i + 1) maxLength c (name @ [char_of c]) st)
      else (c, name, st))"
  by pat_completeness auto
termination
  by (relation "measure (\<lambda>(i, maxLength, c, name, st). unsignedPred maxLength - i)") auto

declare readDirectiveLoop.simps [simp del]

text \<open>
  \<^verbatim>\<open>readDirective\<close> returns whether the last character was a space or a tab; the
  model also returns the bytes written to \<^verbatim>\<open>name\<close>, the terminating NUL included.
\<close>

definition readDirective :: "int \<Rightarrow> nat \<Rightarrow> cppState \<Rightarrow> bool \<times> char list \<times> cppState" where
  "readDirective c maxLength st =
     (case readDirectiveLoop 0 maxLength c [] st of
        (c1, name, st1) \<Rightarrow> (isspacetab c1, name @ [NUL], st1))"

function readIdentifierLoop ::
  "cppEnv \<Rightarrow> int \<Rightarrow> char list \<Rightarrow> cppState \<Rightarrow> char list \<times> cppState" where
  "readIdentifierLoop env c name st =
     (case getcFromInputFile st of
        (c1, st1) \<Rightarrow>
          if c1 \<noteq> EOF \<and> isident env c1
          then readIdentifierLoop env c1 (name @ [char_of c]) st1
          else (name @ [char_of c], fileUngetc c1 st1))"
  by pat_completeness auto
termination
  by (relation "measure (\<lambda>(env, c, name, st). fileSize st)") (auto dest: getc_size_sym(2))

declare readIdentifierLoop.simps [simp del]

definition readIdentifier :: "cppEnv \<Rightarrow> int \<Rightarrow> cppState \<Rightarrow> cppState" where
  "readIdentifier env c st =
     (case readIdentifierLoop env c [] st of
        (name, st1) \<Rightarrow> st1\<lparr>directive_name := name\<rparr>)"

subsection \<open>Comments\<close>

datatype Comment = COMMENT_NONE | COMMENT_C | COMMENT_CPLUS | COMMENT_D

definition isComment :: "cppState \<Rightarrow> Comment \<times> cppState" where
  "isComment st =
     (case getcFromInputFile st of
        (next, st1) \<Rightarrow>
          if next = 42 then (COMMENT_C, st1)
          else if next = 47 then (COMMENT_CPLUS, st1)
          else if next = 43 then (COMMENT_D, st1)
          else (COMMENT_NONE, fileUngetc next st1))"

text \<open>
  The \<^verbatim>\<open>while (c != EOF)\<close> loop shared by \<^verbatim>\<open>skipOverCComment\<close> (\<open>star\<close> is
  \<^verbatim>\<open>'*'\<close>) and \<^verbatim>\<open>skipOverDComment\<close> (\<open>star\<close> is \<^verbatim>\<open>'+'\<close>), which differ in
  that character only.
\<close>

function blockCommentLoop :: "int \<Rightarrow> int \<Rightarrow> cppState \<Rightarrow> int \<times> cppState" where
  "blockCommentLoop star c st =
     (if c \<noteq> EOF
      then (if c \<noteq> star
            then (case getcFromInputFile st of (c1, st1) \<Rightarrow> blockCommentLoop star c1 st1)
            else (case getcFromInputFile st of
                    (next, st1) \<Rightarrow>
                      if next \<noteq> 47 then blockCommentLoop star next st1
                      else (SPACE, st1)))
      else (c, st))"
  by pat_completeness auto
termination
  by (relation "measure (\<lambda>(star, c, st). 2 * fileSize st + (if c = EOF then 0 else 1))")
     (auto dest: getc_size split: prod.splits)

declare blockCommentLoop.simps [simp del]

definition skipOverCComment :: "cppState \<Rightarrow> int \<times> cppState" where
  "skipOverCComment st =
     (case getcFromInputFile st of (c, st1) \<Rightarrow> blockCommentLoop 42 c st1)"

definition skipOverDComment :: "cppState \<Rightarrow> int \<times> cppState" where
  "skipOverDComment st =
     (case getcFromInputFile st of (c, st1) \<Rightarrow> blockCommentLoop 43 c st1)"

function skipOverCplusComment :: "cppState \<Rightarrow> int \<times> cppState" where
  "skipOverCplusComment st =
     (case getcFromInputFile st of
        (c, st1) \<Rightarrow>
          if c \<noteq> EOF
          then (if c = BACKSLASH
                then skipOverCplusComment (snd (getcFromInputFile st1))
                else if c = NEWLINE then (c, st1)
                else skipOverCplusComment st1)
          else (c, st1))"
  by pat_completeness auto
termination
  by (relation "measure fileSize")
     (auto dest: getc_size_sym(2) intro: le_less_trans [OF getc_snd_size])

declare skipOverCplusComment.simps [simp del]

subsection \<open>String and character literals\<close>

function skipToEndOfStringLoop :: "bool \<Rightarrow> cppState \<Rightarrow> cppState" where
  "skipToEndOfStringLoop ignoreBackslash st =
     (case getcFromInputFile st of
        (c, st1) \<Rightarrow>
          if c \<noteq> EOF
          then (if c = BACKSLASH \<and> \<not> ignoreBackslash
                then skipToEndOfStringLoop ignoreBackslash (snd (getcFromInputFile st1))
                else if c = DOUBLE_QUOTE then st1
                else skipToEndOfStringLoop ignoreBackslash st1)
          else st1)"
  by pat_completeness auto
termination
  by (relation "measure (\<lambda>(b, st). fileSize st)")
     (auto dest: getc_size_sym(2) intro: le_less_trans [OF getc_snd_size])

declare skipToEndOfStringLoop.simps [simp del]

definition skipToEndOfString :: "cppEnv \<Rightarrow> bool \<Rightarrow> cppState \<Rightarrow> int \<times> cppState" where
  "skipToEndOfString env ignoreBackslash st =
     (STRING_SYMBOL env, skipToEndOfStringLoop ignoreBackslash st)"

lemma skipToEndOfStringLoop_size:
  "fileSize (skipToEndOfStringLoop b st) \<le> fileSize st"
proof (induction b st rule: skipToEndOfStringLoop.induct)
  case (1 b st)
  obtain c st1 where g: "getcFromInputFile st = (c, st1)" by (cases "getcFromInputFile st")
  note le = getc_size(1) [OF g]
  show ?case
  proof (cases "c \<noteq> EOF")
    case False
    with g le show ?thesis by (subst skipToEndOfStringLoop.simps) simp
  next
    case True
    show ?thesis
    proof (cases "c = BACKSLASH \<and> \<not> b")
      case bs: True
      from "1.IH"(1) [OF g [symmetric] True bs] getc_snd_size [of st1] le
      show ?thesis using g True bs by (subst skipToEndOfStringLoop.simps) simp
    next
      case nbs: False
      show ?thesis
      proof (cases "c = DOUBLE_QUOTE")
        case dq: True
        with g le True nbs show ?thesis by (subst skipToEndOfStringLoop.simps) auto
      next
        case ndq: False
        from "1.IH"(2) [OF g [symmetric] True nbs ndq] le
        show ?thesis using g True nbs ndq by (subst skipToEndOfStringLoop.simps) auto
      qed
    qed
  qed
qed

text \<open>\<^verbatim>\<open>isCxxRawLiteralDelimiterChar\<close>\<close>

definition isCxxRawLiteralDelimiterChar :: "int \<Rightarrow> bool" where
  "isCxxRawLiteralDelimiterChar c \<longleftrightarrow>
     c \<noteq> 32 \<and> c \<noteq> 12 \<and> c \<noteq> 10 \<and> c \<noteq> 13 \<and> c \<noteq> 9 \<and> c \<noteq> 11
     \<and> c \<noteq> 40 \<and> c \<noteq> 41 \<and> c \<noteq> 92"

text \<open>
  The value an \<^verbatim>\<open>int\<close> has after it was stored in a \<^verbatim>\<open>char\<close> of the array
  \<^verbatim>\<open>delim\<close> and read back, \<^verbatim>\<open>char\<close> taken as signed.
\<close>

definition storedChar :: "int \<Rightarrow> int" where
  "storedChar c = (if c mod 256 < 128 then c mod 256 else c mod 256 - 256)"

text \<open>
  The inner \<^verbatim>\<open>while\<close> of \<^verbatim>\<open>skipToEndOfCxxRawLiteralString\<close>, which compares the
  input with the delimiter: it returns the last character read and the index reached.
\<close>

function matchDelim :: "int list \<Rightarrow> nat \<Rightarrow> cppState \<Rightarrow> int \<times> nat \<times> cppState" where
  "matchDelim delim i st =
     (case getcFromInputFile st of
        (c, st1) \<Rightarrow>
          if c \<noteq> EOF \<and> i < length delim \<and> delim ! i = c
          then matchDelim delim (i + 1) st1
          else (c, i, st1))"
  by pat_completeness auto
termination
  by (relation "measure (\<lambda>(delim, i, st). fileSize st)") (auto dest: getc_size_sym(2))

declare matchDelim.simps [simp del]

lemma matchDelim_size:
  "matchDelim delim i st = (c, j, st1) \<Longrightarrow> fileSize (fileUngetc c st1) \<le> fileSize st"
proof (induction delim i st rule: matchDelim.induct)
  case (1 delim i st)
  obtain d st2 where g: "getcFromInputFile st = (d, st2)" by (cases "getcFromInputFile st")
  show ?case
  proof (cases "d \<noteq> EOF \<and> i < length delim \<and> delim ! i = d")
    case True
    with "1.prems" g have "matchDelim delim (i + 1) st2 = (c, j, st1)"
      by (subst (asm) matchDelim.simps) simp
    from "1.IH" [OF g [symmetric] True this] getc_size(1) [OF g]
    show ?thesis by simp
  next
    case False
    with "1.prems" g have "c = d" "st1 = st2"
      by (subst (asm) matchDelim.simps, auto)+
    with getc_ungetc_size [OF g] show ?thesis by simp
  qed
qed

lemma rawLiteral_step:
  assumes "(c1, i, st1) = matchDelim delim 0 st"
    and "(c2, st2) = getcFromInputFile (fileUngetc c1 st1)" and "c2 \<noteq> EOF"
  shows "fileSize st2 < fileSize st"
  using matchDelim_size [OF assms(1) [symmetric]] getc_size_sym(2) [OF assms(2) assms(3)]
  by simp

text \<open>
  The \<^verbatim>\<open>do ... while ((c = getcFromInputFile ()) != EOF)\<close> loop of
  \<^verbatim>\<open>skipToEndOfCxxRawLiteralString\<close>, entered with the character \<open>c\<close>.
\<close>

function rawLiteralLoop :: "int \<Rightarrow> bool \<Rightarrow> int list \<Rightarrow> cppState \<Rightarrow> cppState" where
  "rawLiteralLoop c collectDelim delim st =
     (if collectDelim
      then (if isCxxRawLiteralDelimiterChar c \<and> length delim < 16
            then (case getcFromInputFile st of
                    (c1, st1) \<Rightarrow>
                      if c1 \<noteq> EOF then rawLiteralLoop c1 True (delim @ [storedChar c]) st1
                      else st1)
            else (case getcFromInputFile st of
                    (c1, st1) \<Rightarrow>
                      if c1 \<noteq> EOF then rawLiteralLoop c1 False delim st1 else st1))
      else if c = 41
      then (case matchDelim delim 0 st of
              (c1, i, st1) \<Rightarrow>
                if i = length delim \<and> c1 = DOUBLE_QUOTE then st1
                else (case getcFromInputFile (fileUngetc c1 st1) of
                        (c2, st2) \<Rightarrow>
                          if c2 \<noteq> EOF then rawLiteralLoop c2 False delim st2 else st2))
      else (case getcFromInputFile st of
              (c1, st1) \<Rightarrow>
                if c1 \<noteq> EOF then rawLiteralLoop c1 False delim st1 else st1))"
  by pat_completeness auto
termination
  by (relation "measure (\<lambda>(c, collectDelim, delim, st). fileSize st)")
     (auto dest: getc_size_sym(2) rawLiteral_step)

declare rawLiteralLoop.simps [simp del]

definition skipToEndOfCxxRawLiteralString :: "cppEnv \<Rightarrow> cppState \<Rightarrow> int \<times> cppState" where
  "skipToEndOfCxxRawLiteralString env st =
     (case getcFromInputFile st of
        (c, st1) \<Rightarrow>
          if c \<noteq> 40 \<and> \<not> isCxxRawLiteralDelimiterChar c
          then skipToEndOfString env False (fileUngetc c st1)
          else (STRING_SYMBOL env, rawLiteralLoop c True [] st1))"

text \<open>
  \<^verbatim>\<open>strchr ("DHOB", toupper (c)) != NULL\<close>: the character is converted to
  \<^verbatim>\<open>char\<close>, and the terminating NUL of the string counts as found.
\<close>

definition strchrDHOB :: "int \<Rightarrow> bool" where
  "strchrDHOB x \<longleftrightarrow>
     x mod 256 = 68 \<or> x mod 256 = 72 \<or> x mod 256 = 79 \<or> x mod 256 = 66 \<or> x mod 256 = 0"

function skipToEndOfCharLoop :: "nat \<Rightarrow> int \<Rightarrow> cppState \<Rightarrow> cppState" where
  "skipToEndOfCharLoop count veraBase st =
     (case getcFromInputFile st of
        (c, st1) \<Rightarrow>
          if c \<noteq> EOF
          then (if c = BACKSLASH
                then skipToEndOfCharLoop (count + 1) veraBase (snd (getcFromInputFile st1))
                else if c = SINGLE_QUOTE then st1
                else if c = NEWLINE then fileUngetc c st1
                else if count + 1 = 1 \<and> strchrDHOB (toupper c)
                then skipToEndOfCharLoop (count + 1) c st1
                else if veraBase \<noteq> 0 \<and> \<not> isalnum c then fileUngetc c st1
                else skipToEndOfCharLoop (count + 1) veraBase st1)
          else st1)"
  by pat_completeness auto
termination
  by (relation "measure (\<lambda>(count, veraBase, st). fileSize st)")
     (auto dest: getc_size_sym(2) getc_size(2) intro: le_less_trans [OF getc_snd_size]
        split: prod.splits)

declare skipToEndOfCharLoop.simps [simp del]

definition skipToEndOfChar :: "cppEnv \<Rightarrow> cppState \<Rightarrow> int \<times> cppState" where
  "skipToEndOfChar env st = (CHAR_SYMBOL env, skipToEndOfCharLoop 0 0 st)"

lemma rawLiteralLoop_size: "fileSize (rawLiteralLoop c b delim st) \<le> fileSize st"
proof (induction c b delim st rule: rawLiteralLoop.induct)
  case (1 c b delim st)
  obtain c1 st1 where g: "getcFromInputFile st = (c1, st1)" by (cases "getcFromInputFile st")
  note le = getc_size(1) [OF g]
  show ?case
  proof (cases b)
    case True
    show ?thesis
    proof (cases "isCxxRawLiteralDelimiterChar c \<and> length delim < 16")
      case d: True
      show ?thesis
      proof (cases "c1 \<noteq> EOF")
        case ne: True
        from "1.IH"(1) [OF True d g [symmetric] ne] le g True d ne
        show ?thesis by (subst rawLiteralLoop.simps) auto
      next
        case False
        with le g True d show ?thesis by (subst rawLiteralLoop.simps) auto
      qed
    next
      case d: False
      show ?thesis
      proof (cases "c1 \<noteq> EOF")
        case ne: True
        from "1.IH"(2) [OF True d g [symmetric] ne] le g True d ne
        show ?thesis by (subst rawLiteralLoop.simps) auto
      next
        case False
        with le g True d show ?thesis by (subst rawLiteralLoop.simps) auto
      qed
    qed
  next
    case nb: False
    show ?thesis
    proof (cases "c = 41")
      case paren: True
      obtain c2 i st2 where m: "matchDelim delim 0 st = (c2, i, st2)"
        by (cases "matchDelim delim 0 st") auto
      note ms = matchDelim_size [OF m]
      obtain c3 st3 where g3: "getcFromInputFile (fileUngetc c2 st2) = (c3, st3)"
        by (cases "getcFromInputFile (fileUngetc c2 st2)")
      note le3 = getc_size(1) [OF g3]
      show ?thesis
      proof (cases "i = length delim \<and> c2 = DOUBLE_QUOTE")
        case True
        with ms nb paren m show ?thesis
          by (subst rawLiteralLoop.simps) (simp add: ungetc_size)
      next
        case nm: False
        show ?thesis
        proof (cases "c3 \<noteq> EOF")
          case ne: True
          from "1.IH"(3) [OF nb paren m [symmetric] refl nm g3 [symmetric] ne]
            ms le3 nb paren m nm g3 ne
          show ?thesis by (subst rawLiteralLoop.simps) auto
        next
          case False
          with ms le3 nb paren m nm g3 show ?thesis by (subst rawLiteralLoop.simps) auto
        qed
      qed
    next
      case np: False
      show ?thesis
      proof (cases "c1 \<noteq> EOF")
        case ne: True
        from "1.IH"(4) [OF nb np g [symmetric] ne] le g nb np ne
        show ?thesis by (subst rawLiteralLoop.simps) auto
      next
        case False
        with le g nb np show ?thesis by (subst rawLiteralLoop.simps) auto
      qed
    qed
  qed
qed

lemma skipToEndOfCharLoop_size: "fileSize (skipToEndOfCharLoop n v st) \<le> fileSize st"
proof (induction n v st rule: skipToEndOfCharLoop.induct)
  case (1 n v st)
  obtain c st1 where g: "getcFromInputFile st = (c, st1)" by (cases "getcFromInputFile st")
  note le = getc_size(1) [OF g] and ug = getc_ungetc_size [OF g]
  show ?case
  proof (cases "c \<noteq> EOF")
    case False
    with g le show ?thesis by (subst skipToEndOfCharLoop.simps) simp
  next
    case ne: True
    show ?thesis
    proof (cases "c = BACKSLASH")
      case True
      from "1.IH"(1) [OF g [symmetric] ne True] getc_snd_size [of st1] le g ne True
      show ?thesis by (subst skipToEndOfCharLoop.simps) simp
    next
      case nbs: False
      show ?thesis
      proof (cases "c = SINGLE_QUOTE \<or> c = NEWLINE")
        case True
        with g le ug ne nbs show ?thesis by (subst skipToEndOfCharLoop.simps) auto
      next
        case nq: False
        show ?thesis
        proof (cases "n + 1 = 1 \<and> strchrDHOB (toupper c)")
          case True
          from "1.IH"(2) [OF g [symmetric] ne nbs _ _ True] nq le g ne nbs True
          show ?thesis by (subst skipToEndOfCharLoop.simps) simp
        next
          case nv: False
          show ?thesis
          proof (cases "v \<noteq> 0 \<and> \<not> isalnum c")
            case True
            with g ug ne nbs nq nv show ?thesis by (subst skipToEndOfCharLoop.simps) auto
          next
            case False
            from "1.IH"(3) [OF g [symmetric] ne nbs _ _ nv False] nq le g ne nbs nv False
            show ?thesis by (subst skipToEndOfCharLoop.simps) auto
          qed
        qed
      qed
    qed
  qed
qed

lemma blockCommentLoop_size: "fileSize (snd (blockCommentLoop star c st)) \<le> fileSize st"
proof (induction star c st rule: blockCommentLoop.induct)
  case (1 star c st)
  obtain c1 st1 where g: "getcFromInputFile st = (c1, st1)" by (cases "getcFromInputFile st")
  note le = getc_size(1) [OF g]
  show ?case
  proof (cases "c \<noteq> EOF")
    case False
    then show ?thesis by (subst blockCommentLoop.simps) simp
  next
    case ne: True
    show ?thesis
    proof (cases "c \<noteq> star")
      case True
      from "1.IH"(1) [OF ne True g [symmetric]] le g ne True
      show ?thesis by (subst blockCommentLoop.simps) simp
    next
      case st: False
      show ?thesis
      proof (cases "c1 \<noteq> 47")
        case True
        from "1.IH"(2) [OF ne st g [symmetric] True] le g ne st True
        show ?thesis by (subst blockCommentLoop.simps) simp
      next
        case False
        with le g ne st show ?thesis by (subst blockCommentLoop.simps) simp
      qed
    qed
  qed
qed

lemma skipOverCplusComment_size:
  "fileSize (snd (skipOverCplusComment st)) \<le> fileSize st
   \<and> (fst (skipOverCplusComment st) \<noteq> EOF \<longrightarrow>
        fileSize (snd (skipOverCplusComment st)) < fileSize st)"
proof (induction st rule: skipOverCplusComment.induct)
  case (1 st)
  obtain c st1 where g: "getcFromInputFile st = (c, st1)" by (cases "getcFromInputFile st")
  note le = getc_size(1) [OF g]
  show ?case
  proof (cases "c \<noteq> EOF")
    case False
    with g le show ?thesis by (subst (1 2 3) skipOverCplusComment.simps) simp
  next
    case ne: True
    note lt = getc_size(2) [OF g ne]
    show ?thesis
    proof (cases "c = BACKSLASH")
      case True
      from "1.IH"(1) [OF g [symmetric] ne True] getc_snd_size [of st1] lt g ne True
      show ?thesis by (subst (1 2 3) skipOverCplusComment.simps) auto
    next
      case nbs: False
      show ?thesis
      proof (cases "c = NEWLINE")
        case True
        with g lt ne nbs show ?thesis by (subst (1 2 3) skipOverCplusComment.simps) simp
      next
        case False
        from "1.IH"(2) [OF g [symmetric] ne nbs False] lt g ne nbs False
        show ?thesis by (subst (1 2 3) skipOverCplusComment.simps) auto
      qed
    qed
  qed
qed

lemma readDirectiveLoop_size:
  "fileSize (snd (snd (readDirectiveLoop i m c name st))) \<le> fileSize st"
proof (induction i m c name st rule: readDirectiveLoop.induct)
  case (1 i m c name st)
  obtain c1 st1 where g: "getcFromInputFile st = (c1, st1)" by (cases "getcFromInputFile st")
  note le = getc_size(1) [OF g] and ug = getc_ungetc_size [OF g]
  show ?case
  proof (cases "i < unsignedPred m")
    case False
    then show ?thesis by (subst readDirectiveLoop.simps) simp
  next
    case lt: True
    show ?thesis
    proof (cases "i > 0")
      case False
      from "1.IH"(2) [OF lt False] lt False
      show ?thesis by (subst readDirectiveLoop.simps) simp
    next
      case pos: True
      show ?thesis
      proof (cases "c1 = EOF \<or> \<not> isalpha c1")
        case True
        with lt pos g ug show ?thesis by (subst readDirectiveLoop.simps) auto
      next
        case False
        from "1.IH"(1) [OF lt pos g [symmetric] False] le lt pos g False
        show ?thesis by (subst readDirectiveLoop.simps) auto
      qed
    qed
  qed
qed

lemma readIdentifierLoop_size:
  "fileSize (snd (readIdentifierLoop env c name st)) \<le> fileSize st"
proof (induction env c name st rule: readIdentifierLoop.induct)
  case (1 env c name st)
  obtain c1 st1 where g: "getcFromInputFile st = (c1, st1)" by (cases "getcFromInputFile st")
  note le = getc_size(1) [OF g] and ug = getc_ungetc_size [OF g]
  show ?case
  proof (cases "c1 \<noteq> EOF \<and> isident env c1")
    case True
    from "1.IH" [OF g [symmetric] True] le g True
    show ?thesis by (subst readIdentifierLoop.simps) auto
  next
    case False
    with g ug show ?thesis by (subst readIdentifierLoop.simps) auto
  qed
qed

lemma readIdentifier_size: "fileSize (readIdentifier env c st) \<le> fileSize st"
  using readIdentifierLoop_size [of env c "[]" st]
  by (cases "readIdentifierLoop env c [] st") (simp add: readIdentifier_def fileSize_def)

subsection \<open>Directives\<close>

text \<open>
  \<^verbatim>\<open>makeDefineTag\<close>: the tag handed to \<^verbatim>\<open>makeTagEntry\<close> is recorded by its name
  and the \<^verbatim>\<open>parameterized\<close> flag. The signature that \<^verbatim>\<open>getArglistFromFilePos\<close>
  reads for it comes from a second look at the file, which puts the file position back
  where it was: it is not part of the state here.
\<close>

definition makeDefineTag :: "cppEnv \<Rightarrow> string \<Rightarrow> bool \<Rightarrow> cppState \<Rightarrow> cppState" where
  "makeDefineTag env name parameterized st =
     (let isFileScope = \<not> isHeaderFile env
      in if includingDefineTags env \<and> (\<not> isFileScope \<or> Option_include_fileScope env)
         then st\<lparr>tagEntries := tagEntries st @ [(name, parameterized)]\<rparr>
         else st)"

definition directiveDefine :: "cppEnv \<Rightarrow> int \<Rightarrow> cppState \<Rightarrow> cppState" where
  "directiveDefine env c st =
     (let st5 =
        (if isident1 env c
         then (let st1 = readIdentifier env c st
               in case getcFromInputFile st1 of
                    (nc, st2) \<Rightarrow>
                      let st3 = fileUngetc nc st2;
                          parameterized = (nc = 40)
                      in if \<not> isIgnore st3
                         then makeDefineTag env (directive_name st3) parameterized st3
                         else st3)
         else st)
      in st5\<lparr>directive_state := DRCTV_NONE\<rparr>)"

text \<open>The \<^verbatim>\<open>do ... while (c == SPACE)\<close> loop of \<^verbatim>\<open>directivePragma\<close>.\<close>

function pragmaSkipSpaces :: "cppState \<Rightarrow> int \<times> cppState" where
  "pragmaSkipSpaces st =
     (case getcFromInputFile st of
        (c, st1) \<Rightarrow> if c = SPACE then pragmaSkipSpaces st1 else (c, st1))"
  by pat_completeness auto
termination
  by (relation "measure fileSize") (auto dest: getc_size_sym(2) simp: SPACE_def EOF_def)

declare pragmaSkipSpaces.simps [simp del]

lemma pragmaSkipSpaces_size: "fileSize (snd (pragmaSkipSpaces st)) \<le> fileSize st"
proof (induction st rule: pragmaSkipSpaces.induct)
  case (1 st)
  obtain c st1 where g: "getcFromInputFile st = (c, st1)" by (cases "getcFromInputFile st")
  note le = getc_size(1) [OF g]
  show ?case
  proof (cases "c = SPACE")
    case True
    from "1.IH" [OF g [symmetric] True] le g True
    show ?thesis by (subst pragmaSkipSpaces.simps) simp
  next
    case False
    with g le show ?thesis by (subst pragmaSkipSpaces.simps) simp
  qed
qed

definition directivePragma :: "cppEnv \<Rightarrow> int \<Rightarrow> cppState \<Rightarrow> cppState" where
  "directivePragma env c st =
     (let st5 =
        (if isident1 env c
         then (let st1 = readIdentifier env c st
               in if directive_name st1 = ''weak''
                  then (case pragmaSkipSpaces st1 of
                          (c1, st2) \<Rightarrow>
                            if isident1 env c1
                            then (let st3 = readIdentifier env c1 st2
                                  in makeDefineTag env (directive_name st3) False st3)
                            else st2)
                  else st1)
         else st)
      in st5\<lparr>directive_state := DRCTV_NONE\<rparr>)"

definition directiveIf :: "cppEnv \<Rightarrow> int \<Rightarrow> cppState \<Rightarrow> bool \<times> cppState" where
  "directiveIf env c st =
     (case pushConditional env (c \<noteq> 48) st of
        (ignore, st1) \<Rightarrow> (ignore, st1\<lparr>directive_state := DRCTV_NONE\<rparr>))"

definition directiveHash :: "cppEnv \<Rightarrow> int \<Rightarrow> cppState \<Rightarrow> bool \<times> cppState" where
  "directiveHash env c st =
     (case readDirective c MaxDirectiveName st of
        (_, buf, st1) \<Rightarrow>
          let directive = cstring buf
          in if directive = ''define'' then (False, st1\<lparr>directive_state := DRCTV_DEFINE\<rparr>)
             else if directive = ''undef'' then (False, st1\<lparr>directive_state := DRCTV_UNDEF\<rparr>)
             else if take 2 directive = ''if''
             then (False, st1\<lparr>directive_state := DRCTV_IF\<rparr>)
             else if directive = ''elif'' \<or> directive = ''else''
             then (case isIgnoreBranch st1 of
                     (b, st2) \<Rightarrow>
                       (case setIgnore b st2 of
                          (ignore, st3) \<Rightarrow>
                            let st4 = (if \<not> ignore \<and> directive = ''else''
                                       then chooseBranch st3 else st3)
                            in (ignore, st4\<lparr>directive_state := DRCTV_NONE\<rparr>)))
             else if directive = ''endif''
             then (case popConditional st1 of
                     (ignore, st2) \<Rightarrow> (ignore, st2\<lparr>directive_state := DRCTV_NONE\<rparr>))
             else if directive = ''pragma''
             then (False, st1\<lparr>directive_state := DRCTV_PRAGMA\<rparr>)
             else (False, st1\<lparr>directive_state := DRCTV_NONE\<rparr>))"

definition handleDirective :: "cppEnv \<Rightarrow> int \<Rightarrow> cppState \<Rightarrow> bool \<times> cppState" where
  "handleDirective env c st =
     (let ignore = isIgnore st
      in case directive_state st of
           DRCTV_NONE \<Rightarrow> (isIgnore st, st)
         | DRCTV_DEFINE \<Rightarrow> (ignore, directiveDefine env c st)
         | DRCTV_HASH \<Rightarrow> directiveHash env c st
         | DRCTV_IF \<Rightarrow> directiveIf env c st
         | DRCTV_PRAGMA \<Rightarrow> (ignore, directivePragma env c st)
         | DRCTV_UNDEF \<Rightarrow> (ignore, directiveDefine env c st))"

lemma fileSize_cong: "File st1 = File st \<Longrightarrow> fileSize st1 = fileSize st"
  by (simp add: fileSize_def)

lemma directiveDefine_size: "fileSize (directiveDefine env c st) \<le> fileSize st"
proof (cases "isident1 env c")
  case False
  then show ?thesis by (simp add: directiveDefine_def fileSize_def)
next
  case True
  obtain nc st2 where g: "getcFromInputFile (readIdentifier env c st) = (nc, st2)"
    by (cases "getcFromInputFile (readIdentifier env c st)")
  from getc_ungetc_size [OF g] readIdentifier_size [of env c st]
  have "fileSize (fileUngetc nc st2) \<le> fileSize st" by simp
  moreover have "File (directiveDefine env c st) = File (fileUngetc nc st2)"
    using True g by (simp add: directiveDefine_def makeDefineTag_def Let_def)
  then have "fileSize (directiveDefine env c st) = fileSize (fileUngetc nc st2)"
    by (rule fileSize_cong)
  ultimately show ?thesis by simp
qed

lemma directivePragma_size: "fileSize (directivePragma env c st) \<le> fileSize st"
proof (cases "isident1 env c")
  case False
  then show ?thesis by (simp add: directivePragma_def fileSize_def)
next
  case True
  let ?st1 = "readIdentifier env c st"
  note r1 = readIdentifier_size [of env c st]
  obtain c1 st2 where p: "pragmaSkipSpaces ?st1 = (c1, st2)" by (cases "pragmaSkipSpaces ?st1")
  from pragmaSkipSpaces_size [of ?st1] p have r2: "fileSize st2 \<le> fileSize ?st1" by simp
  note r3 = readIdentifier_size [of env c1 st2]
  have "fileSize (directivePragma env c st) = fileSize ?st1
      \<or> fileSize (directivePragma env c st) = fileSize st2
      \<or> fileSize (directivePragma env c st) = fileSize (readIdentifier env c1 st2)"
    using True p by (simp add: directivePragma_def makeDefineTag_def Let_def fileSize_def)
  with r1 r2 r3 show ?thesis by auto
qed

lemma directiveIf_size: "fileSize (snd (directiveIf env c st)) = fileSize st"
  by (simp add: directiveIf_def pushConditional_def fileSize_def Let_def)

lemma readDirective_size: "fileSize (snd (snd (readDirective c m st))) \<le> fileSize st"
  using readDirectiveLoop_size [of 0 m c "[]" st]
  by (cases "readDirectiveLoop 0 m c [] st") (simp add: readDirective_def)

lemma isIgnoreBranch_File: "File (snd (isIgnoreBranch st)) = File st"
  by (simp add: isIgnoreBranch_def Let_def)

lemma setIgnore_File: "File (snd (setIgnore b st)) = File st"
  by (simp add: setIgnore_def)

lemma chooseBranch_File: "File (chooseBranch st) = File st"
  by (simp add: chooseBranch_def Let_def)

lemma popConditional_File: "File (snd (popConditional st)) = File st"
  by (simp add: popConditional_def Let_def)

lemma pushConditional_File: "File (snd (pushConditional env b st)) = File st"
  by (simp add: pushConditional_def Let_def)

lemma directiveHash_File:
  "File (snd (directiveHash env c st)) = File (snd (snd (readDirective c MaxDirectiveName st)))"
proof -
  obtain b buf st1 where r: "readDirective c MaxDirectiveName st = (b, buf, st1)"
    by (cases "readDirective c MaxDirectiveName st") auto
  obtain ib st2 where i: "isIgnoreBranch st1 = (ib, st2)" by (cases "isIgnoreBranch st1")
  obtain sb st3 where si: "setIgnore ib st2 = (sb, st3)" by (cases "setIgnore ib st2")
  obtain pb st4 where p: "popConditional st1 = (pb, st4)" by (cases "popConditional st1")
  from isIgnoreBranch_File [of st1] i have f2: "File st2 = File st1" by simp
  from setIgnore_File [of ib st2] si f2 have f3: "File st3 = File st1" by simp
  from popConditional_File [of st1] p have f4: "File st4 = File st1" by simp
  show ?thesis
    unfolding directiveHash_def r i si p Let_def prod.case
    by (simp add: f3 f4 chooseBranch_File)
qed

lemma directiveHash_size: "fileSize (snd (directiveHash env c st)) \<le> fileSize st"
  using readDirective_size [of c MaxDirectiveName st] fileSize_cong [OF directiveHash_File]
  by simp

lemma handleDirective_size: "fileSize (snd (handleDirective env c st)) \<le> fileSize st"
proof (cases "directive_state st")
  case DRCTV_NONE
  then show ?thesis by (simp add: handleDirective_def)
next
  case DRCTV_DEFINE
  with directiveDefine_size [of env c st] show ?thesis by (simp add: handleDirective_def)
next
  case DRCTV_HASH
  with directiveHash_size [of env c st] show ?thesis by (simp add: handleDirective_def)
next
  case DRCTV_IF
  with directiveIf_size [of env c st] show ?thesis by (simp add: handleDirective_def)
next
  case DRCTV_PRAGMA
  with directivePragma_size [of env c st] show ?thesis by (simp add: handleDirective_def)
next
  case DRCTV_UNDEF
  with directiveDefine_size [of env c st] show ?thesis by (simp add: handleDirective_def)
qed

subsection \<open>cppUngetc and cppGetc\<close>

text \<open>
  \<^verbatim>\<open>cppUngetc\<close>. The \<^verbatim>\<open>Assert\<close> on \<^verbatim>\<open>Cpp.ungetch2\<close> is compiled in debug builds
  only and is not part of the model.
\<close>

definition cppUngetc :: "int \<Rightarrow> cppState \<Rightarrow> cppState" where
  "cppUngetc c st = st\<lparr>ungetch2 := ungetch st, ungetch := c\<rparr>"

text \<open>
  The body of the \<^verbatim>\<open>do\<close> loop of \<^verbatim>\<open>cppGetc\<close> works on the character \<open>c\<close>, the
  two local flags \<^verbatim>\<open>directive\<close> and \<^verbatim>\<open>ignore\<close>, and the global state; each piece
  below returns all four. The label \<^verbatim>\<open>enter\<close>:
\<close>

definition enterLabel ::
  "cppEnv \<Rightarrow> int \<Rightarrow> bool \<Rightarrow> bool \<Rightarrow> cppState \<Rightarrow> int \<times> bool \<times> bool \<times> cppState" where
  "enterLabel env c directive ignore st =
     (let st1 = st\<lparr>directive_accept := False\<rparr>
      in if directive
         then (case handleDirective env c st1 of (ignore1, st2) \<Rightarrow> (c, directive, ignore1, st2))
         else (c, directive, ignore, st1))"

text \<open>\<^verbatim>\<open>case '#'\<close>, also reached by \<^verbatim>\<open>goto process\<close> from \<^verbatim>\<open>??=\<close> and \<^verbatim>\<open>%:\<close>.\<close>

definition caseHash ::
  "int \<Rightarrow> bool \<Rightarrow> bool \<Rightarrow> cppState \<Rightarrow> int \<times> bool \<times> bool \<times> cppState" where
  "caseHash c directive ignore st =
     (if directive_accept st
      then (c, True, ignore, st\<lparr>directive_state := DRCTV_HASH, directive_accept := False\<rparr>)
      else (c, directive, ignore, st))"

text \<open>
  \<^verbatim>\<open>case BACKSLASH\<close>, also reached by \<^verbatim>\<open>goto process\<close> from \<^verbatim>\<open>??/\<close>. Its
  \<^verbatim>\<open>continue\<close> goes to the test of the \<^verbatim>\<open>do ... while\<close> loop, as \<^verbatim>\<open>break\<close> does.
\<close>

definition caseBackslash ::
  "int \<Rightarrow> bool \<Rightarrow> bool \<Rightarrow> cppState \<Rightarrow> int \<times> bool \<times> bool \<times> cppState" where
  "caseBackslash c directive ignore st =
     (case getcFromInputFile st of
        (next, st1) \<Rightarrow>
          if next = NEWLINE then (c, directive, ignore, st1)
          else (c, directive, ignore, fileUngetc next st1))"

definition caseSlash ::
  "int \<Rightarrow> bool \<Rightarrow> bool \<Rightarrow> cppState \<Rightarrow> int \<times> bool \<times> bool \<times> cppState" where
  "caseSlash c directive ignore st =
     (case isComment st of
        (comment, st1) \<Rightarrow>
          if comment = COMMENT_C
          then (case skipOverCComment st1 of (c1, st2) \<Rightarrow> (c1, directive, ignore, st2))
          else if comment = COMMENT_CPLUS
          then (case skipOverCplusComment st1 of
                  (c1, st2) \<Rightarrow>
                    (c1, directive, ignore, if c1 = NEWLINE then fileUngetc c1 st2 else st2))
          else if comment = COMMENT_D
          then (case skipOverDComment st1 of (c1, st2) \<Rightarrow> (c1, directive, ignore, st2))
          else (c, directive, ignore, st1\<lparr>directive_accept := False\<rparr>))"

definition caseQuestion ::
  "int \<Rightarrow> bool \<Rightarrow> bool \<Rightarrow> cppState \<Rightarrow> int \<times> bool \<times> bool \<times> cppState" where
  "caseQuestion c directive ignore st =
     (case getcFromInputFile st of
        (next, st1) \<Rightarrow>
          if next \<noteq> 63 then (c, directive, ignore, fileUngetc next st1)
          else (case getcFromInputFile st1 of
                  (next2, st2) \<Rightarrow>
                    if next2 = 40 then (91, directive, ignore, st2)
                    else if next2 = 41 then (93, directive, ignore, st2)
                    else if next2 = 60 then (123, directive, ignore, st2)
                    else if next2 = 62 then (125, directive, ignore, st2)
                    else if next2 = 47 then caseBackslash BACKSLASH directive ignore st2
                    else if next2 = 33 then (124, directive, ignore, st2)
                    else if next2 = SINGLE_QUOTE then (94, directive, ignore, st2)
                    else if next2 = 45 then (126, directive, ignore, st2)
                    else if next2 = 61 then caseHash 35 directive ignore st2
                    else (c, directive, ignore, fileUngetc next2 (fileUngetc 63 st2))))"

definition caseLess ::
  "cppEnv \<Rightarrow> int \<Rightarrow> bool \<Rightarrow> bool \<Rightarrow> cppState \<Rightarrow> int \<times> bool \<times> bool \<times> cppState" where
  "caseLess env c directive ignore st =
     (case getcFromInputFile st of
        (next, st1) \<Rightarrow>
          if next = 58 then enterLabel env 91 directive ignore st1
          else if next = 37 then enterLabel env 123 directive ignore st1
          else enterLabel env c directive ignore (fileUngetc next st1))"

definition caseColon ::
  "cppEnv \<Rightarrow> int \<Rightarrow> bool \<Rightarrow> bool \<Rightarrow> cppState \<Rightarrow> int \<times> bool \<times> bool \<times> cppState" where
  "caseColon env c directive ignore st =
     (case getcFromInputFile st of
        (next, st1) \<Rightarrow>
          if next = 62 then enterLabel env 93 directive ignore st1
          else enterLabel env c directive ignore (fileUngetc next st1))"

definition casePercent ::
  "cppEnv \<Rightarrow> int \<Rightarrow> bool \<Rightarrow> bool \<Rightarrow> cppState \<Rightarrow> int \<times> bool \<times> bool \<times> cppState" where
  "casePercent env c directive ignore st =
     (case getcFromInputFile st of
        (next, st1) \<Rightarrow>
          if next = 62 then enterLabel env 125 directive ignore st1
          else if next = 58 then caseHash 35 directive ignore st1
          else enterLabel env c directive ignore (fileUngetc next st1))"

definition caseDefault ::
  "cppEnv \<Rightarrow> int \<Rightarrow> bool \<Rightarrow> bool \<Rightarrow> cppState \<Rightarrow> int \<times> bool \<times> bool \<times> cppState" where
  "caseDefault env c directive ignore st =
     (if c = 64 \<and> hasAtLiteralStrings st
      then (case getcFromInputFile st of
              (next, st1) \<Rightarrow>
                if next = DOUBLE_QUOTE
                then (case skipToEndOfString env True (st1\<lparr>directive_accept := False\<rparr>) of
                        (c1, st2) \<Rightarrow> (c1, directive, ignore, st2))
                else enterLabel env c directive ignore (fileUngetc next st1))
      else if c = 82 \<and> hasCxxRawLiteralStrings st
      then (let prev = fileGetNthPrevC 1 0 st;
                prev2 = fileGetNthPrevC 2 0 st;
                prev3 = fileGetNthPrevC 3 0 st
            in if \<not> isident env prev
                  \<or> (\<not> isident env prev2 \<and> (prev = 76 \<or> prev = 117 \<or> prev = 85))
                  \<or> (\<not> isident env prev3 \<and> (prev2 = 117 \<and> prev = 56))
               then (case getcFromInputFile st of
                       (next, st1) \<Rightarrow>
                         if next \<noteq> DOUBLE_QUOTE
                         then enterLabel env c directive ignore (fileUngetc next st1)
                         else (case skipToEndOfCxxRawLiteralString env
                                      (st1\<lparr>directive_accept := False\<rparr>) of
                                 (c1, st2) \<Rightarrow> (c1, directive, ignore, st2)))
               else enterLabel env c directive ignore st)
      else enterLabel env c directive ignore st)"

text \<open>The \<^verbatim>\<open>switch (c)\<close> at the label \<^verbatim>\<open>process\<close>.\<close>

definition cppSwitch ::
  "cppEnv \<Rightarrow> int \<Rightarrow> bool \<Rightarrow> bool \<Rightarrow> cppState \<Rightarrow> int \<times> bool \<times> bool \<times> cppState" where
  "cppSwitch env c directive ignore st =
     (if c = EOF then (c, False, False, st)
      else if c = TAB \<or> c = SPACE then (c, directive, ignore, st)
      else if c = NEWLINE
      then (c, (if directive \<and> \<not> ignore then False else directive), ignore,
            st\<lparr>directive_accept := True\<rparr>)
      else if c = DOUBLE_QUOTE
      then (case skipToEndOfString env False (st\<lparr>directive_accept := False\<rparr>) of
              (c1, st1) \<Rightarrow> (c1, directive, ignore, st1))
      else if c = 35 then caseHash c directive ignore st
      else if c = SINGLE_QUOTE
      then (case skipToEndOfChar env (st\<lparr>directive_accept := False\<rparr>) of
              (c1, st1) \<Rightarrow> (c1, directive, ignore, st1))
      else if c = 47 then caseSlash c directive ignore st
      else if c = BACKSLASH then caseBackslash c directive ignore st
      else if c = 63 then caseQuestion c directive ignore st
      else if c = 60 then caseLess env c directive ignore st
      else if c = 58 then caseColon env c directive ignore st
      else if c = 37 then casePercent env c directive ignore st
      else caseDefault env c directive ignore st)"

definition outState :: "int \<times> bool \<times> bool \<times> cppState \<Rightarrow> cppState" where
  "outState r = snd (snd (snd r))"

lemma accept_size [simp]: "fileSize (st\<lparr>directive_accept := b\<rparr>) = fileSize st"
  by (simp add: fileSize_def)

lemma enterLabel_size: "fileSize (outState (enterLabel env c d i st)) \<le> fileSize st"
  using handleDirective_size [of env c "st\<lparr>directive_accept := False\<rparr>"]
  by (cases "handleDirective env c (st\<lparr>directive_accept := False\<rparr>)")
     (simp add: enterLabel_def outState_def Let_def)

lemma caseHash_size: "fileSize (outState (caseHash c d i st)) \<le> fileSize st"
  by (simp add: caseHash_def outState_def fileSize_def)

lemma caseBackslash_size: "fileSize (outState (caseBackslash c d i st)) \<le> fileSize st"
proof -
  obtain n st1 where g: "getcFromInputFile st = (n, st1)" by (cases "getcFromInputFile st")
  from getc_size(1) [OF g] getc_ungetc_size [OF g] g show ?thesis
    by (simp add: caseBackslash_def outState_def)
qed

lemma skipOverCComment_size: "fileSize (snd (skipOverCComment st)) \<le> fileSize st"
proof -
  obtain c st1 where g: "getcFromInputFile st = (c, st1)" by (cases "getcFromInputFile st")
  from getc_size(1) [OF g] blockCommentLoop_size [of 42 c st1] g show ?thesis
    by (simp add: skipOverCComment_def)
qed

lemma skipOverDComment_size: "fileSize (snd (skipOverDComment st)) \<le> fileSize st"
proof -
  obtain c st1 where g: "getcFromInputFile st = (c, st1)" by (cases "getcFromInputFile st")
  from getc_size(1) [OF g] blockCommentLoop_size [of 43 c st1] g show ?thesis
    by (simp add: skipOverDComment_def)
qed

lemma caseSlash_size: "fileSize (outState (caseSlash c d i st)) \<le> fileSize st"
proof -
  obtain n st0 where g: "getcFromInputFile st = (n, st0)" by (cases "getcFromInputFile st")
  note le = getc_size(1) [OF g] and ug = getc_ungetc_size [OF g]
  show ?thesis
  proof (cases "n = 42")
    case True
    obtain c1 st2 where s: "skipOverCComment st0 = (c1, st2)" by (cases "skipOverCComment st0")
    from skipOverCComment_size [of st0] s le True g show ?thesis
      by (simp add: caseSlash_def isComment_def outState_def)
  next
    case n1: False
    show ?thesis
    proof (cases "n = 47")
      case True
      obtain c1 st2 where s: "skipOverCplusComment st0 = (c1, st2)"
        by (cases "skipOverCplusComment st0")
      from skipOverCplusComment_size [of st0] s have
        "fileSize st2 \<le> fileSize st0" "c1 \<noteq> EOF \<longrightarrow> fileSize st2 < fileSize st0"
        by simp_all
      with s le n1 True g show ?thesis
        by (auto simp add: caseSlash_def isComment_def outState_def ungetc_size NEWLINE_def
            EOF_def)
    next
      case n2: False
      show ?thesis
      proof (cases "n = 43")
        case True
        obtain c1 st2 where s: "skipOverDComment st0 = (c1, st2)"
          by (cases "skipOverDComment st0")
        from skipOverDComment_size [of st0] s le n1 n2 True g show ?thesis
          by (simp add: caseSlash_def isComment_def outState_def)
      next
        case False
        with ug n1 n2 g show ?thesis
          by (simp add: caseSlash_def isComment_def outState_def)
      qed
    qed
  qed
qed

lemma caseQuestion_size: "fileSize (outState (caseQuestion c d i st)) \<le> fileSize st"
proof -
  obtain n st1 where g: "getcFromInputFile st = (n, st1)" by (cases "getcFromInputFile st")
  obtain n2 st2 where g2: "getcFromInputFile st1 = (n2, st2)" by (cases "getcFromInputFile st1")
  note le = getc_size(1) [OF g] and ug = getc_ungetc_size [OF g]
  note le2 = getc_size(1) [OF g2] and ug2 = getc_ungetc_size [OF g2]
  show ?thesis
  proof (cases "n \<noteq> 63")
    case True
    with g ug show ?thesis by (simp add: caseQuestion_def outState_def)
  next
    case False
    then have n: "n = 63" by simp
    from getc_size(2) [OF g] n have lt: "fileSize st1 < fileSize st" by (simp add: EOF_def)
    have a: "fileSize st2 \<le> fileSize st" using le2 lt by simp
    have b: "fileSize (outState (caseBackslash BACKSLASH d i st2)) \<le> fileSize st"
      using caseBackslash_size [of BACKSLASH d i st2] a by simp
    have h: "fileSize (outState (caseHash 35 d i st2)) \<le> fileSize st"
      using caseHash_size [of 35 d i st2] a by simp
    have u: "fileSize (fileUngetc n2 (fileUngetc 63 st2)) \<le> fileSize st"
      using ug2 lt by (simp add: ungetc_size EOF_def)
    from a b h u n g g2 show ?thesis
      by (simp add: caseQuestion_def outState_def)
  qed
qed

lemma caseLess_size: "fileSize (outState (caseLess env c d i st)) \<le> fileSize st"
proof -
  obtain n st1 where g: "getcFromInputFile st = (n, st1)" by (cases "getcFromInputFile st")
  note le = getc_size(1) [OF g] and ug = getc_ungetc_size [OF g]
  from le ug g enterLabel_size [of env 91 d i st1] enterLabel_size [of env 123 d i st1]
    enterLabel_size [of env c d i "fileUngetc n st1"]
  show ?thesis by (simp add: caseLess_def)
qed

lemma caseColon_size: "fileSize (outState (caseColon env c d i st)) \<le> fileSize st"
proof -
  obtain n st1 where g: "getcFromInputFile st = (n, st1)" by (cases "getcFromInputFile st")
  note le = getc_size(1) [OF g] and ug = getc_ungetc_size [OF g]
  from le ug g enterLabel_size [of env 93 d i st1]
    enterLabel_size [of env c d i "fileUngetc n st1"]
  show ?thesis by (simp add: caseColon_def)
qed

lemma casePercent_size: "fileSize (outState (casePercent env c d i st)) \<le> fileSize st"
proof -
  obtain n st1 where g: "getcFromInputFile st = (n, st1)" by (cases "getcFromInputFile st")
  note le = getc_size(1) [OF g] and ug = getc_ungetc_size [OF g]
  from le ug g enterLabel_size [of env 125 d i st1] caseHash_size [of 35 d i st1]
    enterLabel_size [of env c d i "fileUngetc n st1"]
  show ?thesis by (simp add: casePercent_def)
qed

lemma skipToEndOfString_size: "fileSize (snd (skipToEndOfString env b st)) \<le> fileSize st"
  by (simp add: skipToEndOfString_def skipToEndOfStringLoop_size)

lemma skipToEndOfChar_size: "fileSize (snd (skipToEndOfChar env st)) \<le> fileSize st"
  by (simp add: skipToEndOfChar_def skipToEndOfCharLoop_size)

lemma skipToEndOfCxxRawLiteralString_size:
  "fileSize (snd (skipToEndOfCxxRawLiteralString env st)) \<le> fileSize st"
proof -
  obtain c st1 where g: "getcFromInputFile st = (c, st1)" by (cases "getcFromInputFile st")
  from getc_size(1) [OF g] getc_ungetc_size [OF g] g
    skipToEndOfString_size [of env False "fileUngetc c st1"]
    rawLiteralLoop_size [of c True "[]" st1]
  show ?thesis by (simp add: skipToEndOfCxxRawLiteralString_def)
qed

lemma caseDefault_size: "fileSize (outState (caseDefault env c d i st)) \<le> fileSize st"
proof -
  obtain n st1 where g: "getcFromInputFile st = (n, st1)" by (cases "getcFromInputFile st")
  note le = getc_size(1) [OF g] and ug = getc_ungetc_size [OF g]
  let ?a = "st1\<lparr>directive_accept := False\<rparr>"
  have s: "fileSize (snd (skipToEndOfString env True ?a)) \<le> fileSize st"
    using skipToEndOfString_size [of env True ?a] le by simp
  have r: "fileSize (snd (skipToEndOfCxxRawLiteralString env ?a)) \<le> fileSize st"
    using skipToEndOfCxxRawLiteralString_size [of env ?a] le by simp
  have e: "fileSize (outState (enterLabel env c d i (fileUngetc n st1))) \<le> fileSize st"
    using enterLabel_size [of env c d i "fileUngetc n st1"] ug by simp
  note e0 = enterLabel_size [of env c d i st]
  from s r e e0 g show ?thesis
    by (auto simp add: caseDefault_def Let_def outState_def split_beta)
qed

lemma cppSwitch_size: "fileSize (outState (cppSwitch env c d i st)) \<le> fileSize st"
proof -
  have s: "fileSize (snd (skipToEndOfString env False (st\<lparr>directive_accept := False\<rparr>)))
      \<le> fileSize st"
    using skipToEndOfString_size [of env False "st\<lparr>directive_accept := False\<rparr>"] by simp
  have ch: "fileSize (snd (skipToEndOfChar env (st\<lparr>directive_accept := False\<rparr>)))
      \<le> fileSize st"
    using skipToEndOfChar_size [of env "st\<lparr>directive_accept := False\<rparr>"] by simp
  from s ch caseHash_size [of c d i st] caseSlash_size [of c d i st]
    caseBackslash_size [of c d i st] caseQuestion_size [of c d i st]
    caseLess_size [of env c d i st] caseColon_size [of env c d i st]
    casePercent_size [of env c d i st] caseDefault_size [of env c d i st]
  show ?thesis
    by (auto simp add: cppSwitch_def split_beta outState_def)
qed

lemma cppSwitch_EOF: "cppSwitch env EOF d i st = (EOF, False, False, st)"
  by (simp add: cppSwitch_def)

lemma cppGetc_step:
  assumes "(c, st1) = getcFromInputFile st"
    and "(c1, d1, i1, st2) = cppSwitch env c d i st1" and "d1 \<or> i1"
  shows "fileSize st2 < fileSize st"
proof -
  have ne: "c \<noteq> EOF"
  proof
    assume "c = EOF"
    with assms(2,3) show False by (simp add: cppSwitch_EOF)
  qed
  from cppSwitch_size [of env c d i st1] assms(2) [symmetric]
  have "fileSize st2 \<le> fileSize st1" by (simp add: outState_def)
  with getc_size_sym(2) [OF assms(1) ne] show ?thesis by simp
qed

text \<open>
  The \<^verbatim>\<open>do ... while (directive || ignore)\<close> loop of \<^verbatim>\<open>cppGetc\<close>: one character
  is read and handled in each turn.
\<close>

function cppGetcLoop :: "cppEnv \<Rightarrow> bool \<Rightarrow> bool \<Rightarrow> cppState \<Rightarrow> int \<times> cppState" where
  "cppGetcLoop env directive ignore st =
     (case getcFromInputFile st of
        (c, st1) \<Rightarrow>
          (case cppSwitch env c directive ignore st1 of
             (c1, directive1, ignore1, st2) \<Rightarrow>
               if directive1 \<or> ignore1 then cppGetcLoop env directive1 ignore1 st2
               else (c1, st2)))"
  by pat_completeness auto
termination
  by (relation "measure (\<lambda>(env, directive, ignore, st). fileSize st)")
     (auto dest: cppGetc_step)

declare cppGetcLoop.simps [simp del]

definition cppGetc :: "cppEnv \<Rightarrow> cppState \<Rightarrow> int \<times> cppState" where
  "cppGetc env st =
     (if ungetch st \<noteq> 0
      then (ungetch st, st\<lparr>ungetch := ungetch2 st, ungetch2 := 0\<rparr>)
      else cppGetcLoop env False False st)"

section \<open>Auxiliary definitions for the statements\<close>

text \<open>
  The characters returned by \<open>n\<close> consecutive calls of \<^verbatim>\<open>getcFromInputFile\<close>, and the
  state they leave.
\<close>

fun readChars :: "nat \<Rightarrow> cppState \<Rightarrow> int list \<times> cppState" where
  "readChars 0 st = ([], st)"
| "readChars (Suc n) st =
     (case getcFromInputFile st of
        (c, st1) \<Rightarrow> (case readChars n st1 of (cs, st2) \<Rightarrow> (c # cs, st2)))"

definition wordChar :: "int \<Rightarrow> bool" where
  "wordChar c \<longleftrightarrow> c \<noteq> EOF \<and> isalpha c"

text \<open>The two pushback slots of \<^verbatim>\<open>cppGetc\<close>.\<close>

definition slots :: "cppState \<Rightarrow> int \<times> int" where
  "slots st = (ungetch st, ungetch2 st)"

text \<open>
  The input is used up; and whether a block comment with the closing character \<open>s\<close>
  (\<^verbatim>\<open>*\<close> or \<^verbatim>\<open>+\<close>) is closed in the text \<open>cs\<close> that follows its opening delimiter.
\<close>

definition atEOF :: "cppState \<Rightarrow> bool" where
  "atEOF st \<longleftrightarrow> ungetchBuf (File st) = [] \<and> pending (File st) = []"

fun hasCommentEnd :: "char \<Rightarrow> char list \<Rightarrow> bool" where
  "hasCommentEnd s (a # b # cs) = ((a = s \<and> b = CHR ''/'') \<or> hasCommentEnd s (b # cs))"
| "hasCommentEnd s [a] = False"
| "hasCommentEnd s [] = False"

text \<open>The state in which the first \<^verbatim>\<open>cppGetc\<close> finds a file, after \<^verbatim>\<open>cppInit\<close>.\<close>

definition startState :: "char list \<Rightarrow> cppState" where
  "startState bytes = cppInit False False False (Cpp (openFile bytes))"

text \<open>
  The characters returned by \<open>n\<close> consecutive calls of \<^verbatim>\<open>cppGetc\<close>, and the state
  they leave.
\<close>

fun cppGetcs :: "cppEnv \<Rightarrow> nat \<Rightarrow> cppState \<Rightarrow> int list \<times> cppState" where
  "cppGetcs env 0 st = ([], st)"
| "cppGetcs env (Suc n) st =
     (case cppGetc env st of
        (c, st1) \<Rightarrow> (case cppGetcs env n st1 of (cs, st2) \<Rightarrow> (c # cs, st2)))"


text \<open>
  Whether a string literal is closed in the text \<open>cs\<close> that follows its opening quote,
  a backslash hiding the character behind it unless backslashes are ignored.
\<close>

fun stringEnds :: "bool \<Rightarrow> char list \<Rightarrow> bool" where
  "stringEnds ib (x # y # r) =
     (if x = CHR 0x5C \<and> \<not> ib then stringEnds ib r
      else if x = CHR 0x22 then True else stringEnds ib (y # r))"
| "stringEnds ib [x] = (x = CHR 0x22)"
| "stringEnds ib [] = False"

text \<open>
  A text behind an opening single quote in which \<^verbatim>\<open>skipToEndOfChar\<close> finds no end
  of the literal: no single quote, newline or backslash, and no Vera base letter in
  front.
\<close>

definition charRunsOn :: "char list \<Rightarrow> bool" where
  "charRunsOn cs \<longleftrightarrow>
     list_all (\<lambda>x. x \<noteq> CHR 0x27 \<and> x \<noteq> CHR 0x0A \<and> x \<noteq> CHR 0x5C) cs
     \<and> (cs = [] \<or> \<not> strchrDHOB (toupper (of_char (hd cs))))"

section \<open>Properties of the conditional stack\<close>

lemma condStep_bound:
  "directive_nestLevel st < MaxCppNestingLevel \<Longrightarrow>
   length (directive_ifdef st) = MaxCppNestingLevel \<Longrightarrow>
   directive_nestLevel (condStep env st c) < MaxCppNestingLevel \<and>
   length (directive_ifdef (condStep env st c)) = MaxCppNestingLevel"
  by (cases c)
     (auto simp: pushConditional_def popConditional_def cppBeginStatement_def
        cppEndStatement_def MaxCppNestingLevel_def Let_def)

lemma condRun_bound:
  "directive_nestLevel st < MaxCppNestingLevel \<Longrightarrow>
   length (directive_ifdef st) = MaxCppNestingLevel \<Longrightarrow>
   directive_nestLevel (condRun env st cs) < MaxCppNestingLevel \<and>
   length (directive_ifdef (condRun env st cs)) = MaxCppNestingLevel"
  unfolding condRun_def
proof (induction cs arbitrary: st)
  case Nil
  then show ?case by simp
next
  case (Cons c cs)
  from condStep_bound [OF Cons.prems, of env c]
  have "directive_nestLevel (condStep env st c) < MaxCppNestingLevel"
    and "length (directive_ifdef (condStep env st c)) = MaxCppNestingLevel"
    by simp_all
  from Cons.IH [OF this] show ?case by simp
qed

lemma cppInit_bound:
  "directive_nestLevel (cppInit b a r st0) = 0 \<and>
   length (directive_ifdef (cppInit b a r st0)) = length (directive_ifdef st0)"
  by (simp add: cppInit_def)

text \<open>
  C3. From \<^verbatim>\<open>cppInit\<close>, after any sequence of \<^verbatim>\<open>pushConditional\<close> and
  \<^verbatim>\<open>popConditional\<close> calls (with the statement marks in between, which change the
  flag a push reads), the nesting level is at most 19 and indexes the 20-slot array; a
  push at level 19 returns the whole state unchanged, level and every frame included,
  and a pop at level 0 leaves the level at 0.
\<close>

theorem nestLevel_bounded:
  assumes "length (directive_ifdef st0) = MaxCppNestingLevel"
  shows "directive_nestLevel (condRun env (cppInit b a r st0) calls) \<le> 19
    \<and> directive_nestLevel (condRun env (cppInit b a r st0) calls)
        < length (directive_ifdef (condRun env (cppInit b a r st0) calls))
    \<and> (directive_nestLevel st = 19 \<longrightarrow> snd (pushConditional env f st) = st)
    \<and> (directive_nestLevel st = 0 \<longrightarrow> directive_nestLevel (snd (popConditional st)) = 0)"
proof -
  have "directive_nestLevel (cppInit b a r st0) < MaxCppNestingLevel"
    by (simp add: cppInit_def MaxCppNestingLevel_def)
  moreover have "length (directive_ifdef (cppInit b a r st0)) = MaxCppNestingLevel"
    using assms by (simp add: cppInit_def)
  ultimately have
    "directive_nestLevel (condRun env (cppInit b a r st0) calls) < MaxCppNestingLevel
     \<and> length (directive_ifdef (condRun env (cppInit b a r st0) calls)) = MaxCppNestingLevel"
    by (rule condRun_bound)
  then show ?thesis
    by (simp add: MaxCppNestingLevel_def pushConditional_def popConditional_def Let_def)
qed

lemma push_level:
  "directive_nestLevel st < 19 \<Longrightarrow>
   directive_nestLevel (snd (pushConditional env b st)) = Suc (directive_nestLevel st)"
  by (simp add: pushConditional_def MaxCppNestingLevel_def Let_def)

lemma pushes_level:
  "directive_nestLevel st + n \<le> 19 \<Longrightarrow>
   directive_nestLevel (condRun env st (replicate n (Push b))) = directive_nestLevel st + n"
  unfolding condRun_def
  by (induction n arbitrary: st) (simp_all add: push_level)

lemma nineteen_pushes:
  "directive_nestLevel
     (condRun exampleEnv (cppInit False False False (Cpp (openFile [])))
        (replicate 19 (Push True))) = 19"
  using pushes_level [of "cppInit False False False (Cpp (openFile []))" 19 exampleEnv True]
  by (simp add: cppInit_def)


theorem nestLevel_bounded_witness:
  "length (directive_ifdef (Cpp (openFile []))) = MaxCppNestingLevel
   \<and> directive_nestLevel
        (condRun exampleEnv (cppInit False False False (Cpp (openFile [])))
           (replicate 19 (Push True))) = 19
   \<and> snd (pushConditional exampleEnv False
        (condRun exampleEnv (cppInit False False False (Cpp (openFile [])))
           (replicate 19 (Push True))))
      = condRun exampleEnv (cppInit False False False (Cpp (openFile [])))
           (replicate 19 (Push True))
   \<and> directive_nestLevel (cppInit False False False (Cpp (openFile []))) = 0
   \<and> directive_nestLevel
        (snd (popConditional (cppInit False False False (Cpp (openFile []))))) = 0"
proof -
  have len: "length (directive_ifdef (Cpp (openFile []))) = MaxCppNestingLevel"
    by (simp add: Cpp_def)
  have zero: "directive_nestLevel (cppInit False False False (Cpp (openFile []))) = 0"
    by (simp add: cppInit_def)
  from nestLevel_bounded [OF len, of exampleEnv False False False "replicate 19 (Push True)"
      "condRun exampleEnv (cppInit False False False (Cpp (openFile [])))
         (replicate 19 (Push True))" False]
    nestLevel_bounded [OF len, of exampleEnv False False False "[]"
      "cppInit False False False (Cpp (openFile []))" False]
    nineteen_pushes len zero
  show ?thesis by simp
qed

text \<open>
  C4. Below the cap, \<^verbatim>\<open>pushConditional (firstBranchChosen)\<close> opens the frame one
  level up, sets its \<open>singleBranch\<close> to \<open>resolveRequired\<close> and its \<open>ignoring\<close> to
  \<open>parent.ignoring \<or> (\<not> firstBranchChosen \<and> \<not> BraceFormat \<and> (resolveRequired \<or>
  \<not> Option.if0))\<close>, and returns that value.
\<close>

theorem pushConditional_ignoring:
  assumes "directive_nestLevel st < MaxCppNestingLevel - 1"
    and "length (directive_ifdef st) = MaxCppNestingLevel"
  shows "directive_nestLevel (snd (pushConditional env f st)) = directive_nestLevel st + 1
    \<and> singleBranch (currentConditional (snd (pushConditional env f st)))
        = resolveRequired st
    \<and> ignoring (currentConditional (snd (pushConditional env f st)))
        = (ignoring (directive_ifdef st ! directive_nestLevel st)
           \<or> (\<not> f \<and> \<not> BraceFormat st \<and> (resolveRequired st \<or> \<not> Option_if0 env)))
    \<and> fst (pushConditional env f st)
        = (ignoring (directive_ifdef st ! directive_nestLevel st)
           \<or> (\<not> f \<and> \<not> BraceFormat st \<and> (resolveRequired st \<or> \<not> Option_if0 env)))"
  using assms
  by (simp add: pushConditional_def currentConditional_def isIgnore_def
        MaxCppNestingLevel_def Let_def)

theorem pushConditional_ignoring_witness:
  "directive_nestLevel (cppInit False False False (Cpp (openFile []))) < MaxCppNestingLevel - 1
   \<and> length (directive_ifdef (cppInit False False False (Cpp (openFile []))))
       = MaxCppNestingLevel
   \<and> ignoring (currentConditional (snd (pushConditional exampleEnv False
        (cppInit False False False (Cpp (openFile []))))))
       = True
   \<and> fst (pushConditional exampleEnv False (cppInit False False False (Cpp (openFile []))))
       = True"
proof -
  have lvl: "directive_nestLevel (cppInit False False False (Cpp (openFile [])))
      < MaxCppNestingLevel - 1"
    by (simp add: cppInit_def MaxCppNestingLevel_def)
  have len: "length (directive_ifdef (cppInit False False False (Cpp (openFile []))))
      = MaxCppNestingLevel"
    by (simp add: cppInit_def Cpp_def)
  from pushConditional_ignoring [OF lvl len, of exampleEnv False] lvl len
  show ?thesis by (simp add: cppInit_def Cpp_def MaxCppNestingLevel_def exampleEnv_def)
qed

section \<open>Properties of stripCodeBuffer\<close>

lemma strlen_props:
  assumes "NUL \<in> set b"
  shows "strlen b < length b" and "b ! strlen b = NUL"
    and "\<And>k. k < strlen b \<Longrightarrow> b ! k \<noteq> NUL"
proof -
  have "takeWhile (\<lambda>c. c \<noteq> NUL) b \<noteq> b"
    using assms by (simp add: takeWhile_eq_all_conv)
  then have "length (takeWhile (\<lambda>c. c \<noteq> NUL) b) \<noteq> length b"
    by (metis takeWhile_eq_take take_all_iff order_refl)
  with length_takeWhile_le [of "\<lambda>c. c \<noteq> NUL" b]
  show lt: "strlen b < length b"
    unfolding strlen_def cstring_def by simp
  show "b ! strlen b = NUL"
    using nth_length_takeWhile [of "\<lambda>c. c \<noteq> NUL" b] lt
    unfolding strlen_def cstring_def by simp
  fix k assume k: "k < strlen b"
  then have "takeWhile (\<lambda>c. c \<noteq> NUL) b ! k \<in> set (takeWhile (\<lambda>c. c \<noteq> NUL) b)"
    unfolding strlen_def cstring_def by (rule nth_mem)
  then have "takeWhile (\<lambda>c. c \<noteq> NUL) b ! k \<noteq> NUL"
    by (rule set_takeWhileD [THEN conjunct2])
  with k show "b ! k \<noteq> NUL"
    unfolding strlen_def cstring_def by (simp add: takeWhile_nth)
qed

lemma putChar_eq:
  assumes "sv_pos v < length (sv_buf v)" and "sv_pos v < INT_MAX"
  shows "putChar c v =
    Some (v\<lparr> sv_buf := (sv_buf v)[sv_pos v := c], sv_pos := sv_pos v + 1,
             sv_stores := sv_stores v @ [sv_pos v] \<rparr>)"
  using assms by (simp add: putChar_def)

lemma putSpace_eq:
  assumes "sv_pos v < length (sv_buf v)" and "sv_pos v < INT_MAX"
  shows "putSpace v =
    Some (if 0 < sv_pos v \<and> sv_buf v ! (sv_pos v - 1) \<noteq> CHR '' ''
          then v\<lparr> sv_buf := (sv_buf v)[sv_pos v := CHR '' ''], sv_pos := sv_pos v + 1,
                  sv_stores := sv_stores v @ [sv_pos v] \<rparr>
          else v)"
  using assms by (auto simp add: putSpace_def putChar_def readBuf_def)

lemma stripSwitch_effect:
  assumes pos: "sv_pos v < length (sv_buf v)" "sv_pos v < INT_MAX"
    and nxt: "sv_i v + 1 < length (sv_buf v)"
    and prv: "sv_state v = st_c_comment_t \<longrightarrow> 0 < sv_i v"
    and c: "c \<noteq> NUL"
  shows "\<exists>w. stripSwitch c v = Some w \<and>
     (kept v w \<or> (\<exists>d. stored d v w \<and> okchar d \<and> (d = c \<or> d = CHR '' '')
        \<and> (d = CHR '' '' \<longrightarrow> 0 < sv_pos v \<and> sv_buf v ! (sv_pos v - 1) \<noteq> CHR '' '')))"
proof (cases "sv_state v")
  case st_none_t
  show ?thesis
  proof (cases "c = CHR ''/''")
    case True
    with st_none_t nxt c show ?thesis
      by (auto simp add: stripSwitch_def putChar_eq [OF pos] readBuf_def kept_def stored_def
          okchar_def isspace_def NUL_def)
  next
    case False
    with st_none_t c show ?thesis
      by (auto simp add: stripSwitch_def putChar_eq [OF pos] putSpace_eq [OF pos]
          kept_def stored_def okchar_def isspace_def NUL_def)
  qed
next
  case st_escape_t
  then show ?thesis
    by (simp add: stripSwitch_def kept_def)
next
  case st_c_comment_t
  with prv nxt show ?thesis
    by (auto simp add: stripSwitch_def putSpace_eq [OF pos] readBuf_def kept_def stored_def
        okchar_def isspace_def NUL_def)
next
  case st_cpp_comment_t
  then show ?thesis
    by (auto simp add: stripSwitch_def putSpace_eq [OF pos] kept_def stored_def okchar_def isspace_def NUL_def)
next
  case st_double_quote_t
  then show ?thesis
    by (simp add: stripSwitch_def kept_def)
next
  case st_single_quote_t
  then show ?thesis
    by (simp add: stripSwitch_def kept_def)
qed

lemma stripStep_inv:
  assumes nul: "NUL \<in> set b0" and maxlen: "strlen b0 \<le> INT_MAX"
    and inv: "stripInv b0 v" and lt: "sv_i v < strlen b0"
  shows "\<exists>w. stripStep v = Some w \<and> stripInv b0 w \<and> sv_i w = sv_i v + 1
    \<and> (sv_buf w = sv_buf v \<and> sv_pos w = sv_pos v \<and> sv_stores w = sv_stores v
        \<or> (\<exists>d. okchar d \<and> (d = b0 ! sv_i v \<or> d = CHR '' '')
             \<and> (d = CHR '' '' \<longrightarrow> 0 < sv_pos v \<and> sv_buf v ! (sv_pos v - 1) \<noteq> CHR '' '')
             \<and> sv_buf w = (sv_buf v)[sv_pos v := d] \<and> sv_pos w = sv_pos v + 1
             \<and> sv_stores w = sv_stores v @ [sv_pos v] \<and> sv_state w = st_none_t))"
proof -
  from strlen_props [OF nul] have n: "strlen b0 < length b0"
    and nonnul: "\<And>k. k < strlen b0 \<Longrightarrow> b0 ! k \<noteq> NUL" by blast+
  from inv have len: "length (sv_buf v) = length b0" and pi: "sv_pos v \<le> sv_i v"
    and unread: "\<And>k. sv_i v \<le> k \<Longrightarrow> k < length b0 \<Longrightarrow> sv_buf v ! k = b0 ! k"
    and cc: "sv_state v = st_c_comment_t \<longrightarrow> 0 < sv_i v"
    and st: "\<forall>k \<in> set (sv_stores v). k < sv_i v"
    by (simp_all add: stripInv_def)
  have cur: "sv_buf v ! sv_i v = b0 ! sv_i v" using unread [of "sv_i v"] lt n by simp
  have rd: "readBuf (sv_buf v) (sv_i v) = Some (b0 ! sv_i v)"
    using cur lt n len by (simp add: readBuf_def)
  have c: "b0 ! sv_i v \<noteq> NUL" using nonnul [OF lt] .
  have p1: "sv_pos v < length (sv_buf v)" using pi lt n len by simp
  have p2: "sv_pos v < INT_MAX" using pi lt maxlen by simp
  have p3: "sv_i v + 1 < length (sv_buf v)" using lt n len by simp
  from stripSwitch_effect [OF p1 p2 p3 cc c] obtain u where
    u: "stripSwitch (b0 ! sv_i v) v = Some u"
    and eff: "kept v u \<or> (\<exists>d. stored d v u \<and> okchar d \<and> (d = b0 ! sv_i v \<or> d = CHR '' '')
        \<and> (d = CHR '' '' \<longrightarrow> 0 < sv_pos v \<and> sv_buf v ! (sv_pos v - 1) \<noteq> CHR '' ''))"
    by blast
  have iu: "sv_i u = sv_i v" using eff by (auto simp: kept_def stored_def)
  have iu_max: "sv_i u < INT_MAX" using iu lt maxlen by simp
  let ?w = "u\<lparr>sv_i := sv_i u + 1\<rparr>"
  have step: "stripStep v = Some ?w"
    using rd u iu_max by (simp add: stripStep_def)
  from eff show ?thesis
  proof
    assume k: "kept v u"
    then have "stripInv b0 ?w"
      using len pi lt unread st cur
      by (auto simp: stripInv_def kept_def)
    with step k iu show ?thesis by (auto simp: kept_def)
  next
    assume "\<exists>d. stored d v u \<and> okchar d \<and> (d = b0 ! sv_i v \<or> d = CHR '' '')
        \<and> (d = CHR '' '' \<longrightarrow> 0 < sv_pos v \<and> sv_buf v ! (sv_pos v - 1) \<noteq> CHR '' '')"
    then obtain d where d: "stored d v u" "okchar d" "d = b0 ! sv_i v \<or> d = CHR '' ''"
        "d = CHR '' '' \<longrightarrow> 0 < sv_pos v \<and> sv_buf v ! (sv_pos v - 1) \<noteq> CHR '' ''"
      by blast
    from d(1) have "stripInv b0 ?w"
      using len pi lt unread st
      by (auto simp: stripInv_def stored_def nth_list_update)
    with step d iu show ?thesis by (auto simp: stored_def)
  qed
qed

lemma wfOut_snoc:
  assumes "wfOut out" and "okchar d"
    and "d = CHR '' '' \<longrightarrow> out \<noteq> [] \<and> last out \<noteq> CHR '' ''"
  shows "wfOut (out @ [d])"
proof -
  have "\<And>k. Suc k < length (out @ [d]) \<Longrightarrow> (out @ [d]) ! k = CHR '' ''
      \<Longrightarrow> (out @ [d]) ! Suc k \<noteq> CHR '' ''"
  proof -
    fix k assume k: "Suc k < length (out @ [d])" and sp: "(out @ [d]) ! k = CHR '' ''"
    show "(out @ [d]) ! Suc k \<noteq> CHR '' ''"
    proof (cases "Suc k < length out")
      case True
      with assms(1) sp show ?thesis by (simp add: wfOut_def nth_append)
    next
      case False
      with k have e: "Suc k = length out" by simp
      then have "(out @ [d]) ! k = last out"
        by (metis Suc_neq_Zero diff_Suc_1 last_conv_nth length_0_conv lessI nth_append)
      with sp assms(3) e show ?thesis by (auto simp: nth_append)
    qed
  qed
  moreover have "hd (out @ [d]) \<noteq> CHR '' ''"
    using assms by (cases out) (auto simp: wfOut_def)
  moreover have "\<forall>c \<in> set (out @ [d]). okchar c"
    using assms by (simp add: wfOut_def)
  ultimately show ?thesis unfolding wfOut_def by blast
qed

lemma last_take_nth:
  "0 < n \<Longrightarrow> n \<le> length xs \<Longrightarrow> last (take n xs) = xs ! (n - 1) \<and> take n xs \<noteq> []"
  by (cases xs) (auto simp: last_conv_nth min_def)

lemma stripStep_out:
  assumes nul: "NUL \<in> set b0" and maxlen: "strlen b0 \<le> INT_MAX"
    and inv: "stripInv b0 v" and lt: "sv_i v < strlen b0" and wf: "wfOut (stripOut v)"
    and stp: "stripStep v = Some w'"
  shows "wfOut (stripOut w')"
proof -
  from strlen_props(1) [OF nul] have n: "strlen b0 < length b0" .
  from inv have len: "length (sv_buf v) = length b0" and pi: "sv_pos v \<le> sv_i v"
    by (simp_all add: stripInv_def)
  have p1: "sv_pos v < length (sv_buf v)" using pi lt n len by simp
  from stripStep_inv [OF nul maxlen inv lt] obtain w where
    w: "stripStep v = Some w" "stripInv b0 w" "sv_i w = sv_i v + 1"
    and eff: "sv_buf w = sv_buf v \<and> sv_pos w = sv_pos v \<and> sv_stores w = sv_stores v
        \<or> (\<exists>d. okchar d \<and> (d = b0 ! sv_i v \<or> d = CHR '' '')
             \<and> (d = CHR '' '' \<longrightarrow> 0 < sv_pos v \<and> sv_buf v ! (sv_pos v - 1) \<noteq> CHR '' '')
             \<and> sv_buf w = (sv_buf v)[sv_pos v := d] \<and> sv_pos w = sv_pos v + 1
             \<and> sv_stores w = sv_stores v @ [sv_pos v] \<and> sv_state w = st_none_t)"
    by blast
  from eff have "wfOut (stripOut w)"
  proof
    assume "sv_buf w = sv_buf v \<and> sv_pos w = sv_pos v \<and> sv_stores w = sv_stores v"
    with wf show ?thesis by (simp add: stripOut_def)
  next
    assume "\<exists>d. okchar d \<and> (d = b0 ! sv_i v \<or> d = CHR '' '')
             \<and> (d = CHR '' '' \<longrightarrow> 0 < sv_pos v \<and> sv_buf v ! (sv_pos v - 1) \<noteq> CHR '' '')
             \<and> sv_buf w = (sv_buf v)[sv_pos v := d] \<and> sv_pos w = sv_pos v + 1
             \<and> sv_stores w = sv_stores v @ [sv_pos v] \<and> sv_state w = st_none_t"
    then obtain d where d: "okchar d"
      "d = CHR '' '' \<longrightarrow> 0 < sv_pos v \<and> sv_buf v ! (sv_pos v - 1) \<noteq> CHR '' ''"
      "sv_buf w = (sv_buf v)[sv_pos v := d]" "sv_pos w = sv_pos v + 1"
      by blast
    have out: "stripOut w = stripOut v @ [d]"
      using d(3,4) p1 by (simp add: stripOut_def take_Suc_conv_app_nth)
    have "d = CHR '' '' \<longrightarrow> stripOut v \<noteq> [] \<and> last (stripOut v) \<noteq> CHR '' ''"
      using d(2) p1 last_take_nth [of "sv_pos v" "sv_buf v"] by (auto simp: stripOut_def)
    with wf d(1) out show ?thesis by (simp add: wfOut_snoc)
  qed
  with w(1) stp show ?thesis by simp
qed

lemma stripLoop_rule:
  assumes nul: "NUL \<in> set b0" and maxlen: "strlen b0 \<le> INT_MAX"
    and step: "\<And>v w. stripInv b0 v \<Longrightarrow> sv_i v < strlen b0 \<Longrightarrow> P v \<Longrightarrow>
       stripStep v = Some w \<Longrightarrow> stripInv b0 w \<Longrightarrow> P w"
    and inv: "stripInv b0 v" and p: "P v"
  shows "\<exists>w. stripLoop v = Some w \<and> stripInv b0 w \<and> sv_i w = strlen b0 \<and> P w"
  using inv p
proof (induction "strlen b0 - sv_i v" arbitrary: v)
  case 0
  from strlen_props [OF nul] have n: "strlen b0 < length b0" and z: "b0 ! strlen b0 = NUL"
    by blast+
  from 0 have i: "sv_i v = strlen b0" by (simp add: stripInv_def)
  from "0.prems"(1) i n have "sv_buf v ! sv_i v = NUL" "sv_i v < length (sv_buf v)"
    using z by (simp_all add: stripInv_def)
  then have "stripLoop v = Some v"
    by (subst stripLoop.simps) (simp add: readBuf_def)
  with 0 i show ?case by simp
next
  case (Suc m)
  from strlen_props [OF nul] have n: "strlen b0 < length b0"
    and nonnul: "\<And>k. k < strlen b0 \<Longrightarrow> b0 ! k \<noteq> NUL" by blast+
  from Suc.hyps(2) have lt: "sv_i v < strlen b0" by simp
  from stripStep_inv [OF nul maxlen Suc.prems(1) lt] obtain w where
    w: "stripStep v = Some w" "stripInv b0 w" "sv_i w = sv_i v + 1"
    by blast
  from step [OF Suc.prems(1) lt Suc.prems(2) w(1) w(2)] have pw: "P w" .
  from Suc.hyps(2) w(3) have "m = strlen b0 - sv_i w" by simp
  from Suc.hyps(1) [OF this w(2) pw] obtain u where
    u: "stripLoop w = Some u" "stripInv b0 u" "sv_i u = strlen b0" "P u"
    by blast
  from Suc.prems(1) lt n have "sv_buf v ! sv_i v = b0 ! sv_i v" "sv_i v < length (sv_buf v)"
    by (simp_all add: stripInv_def)
  with nonnul [OF lt] have "readBuf (sv_buf v) (sv_i v) = Some (b0 ! sv_i v)" "b0 ! sv_i v \<noteq> NUL"
    by (simp_all add: readBuf_def)
  then have "stripLoop v = stripLoop w"
    using w(1) by (subst stripLoop.simps) simp
  with u show ?case by simp
qed

lemma stripLoop_result:
  assumes nul: "NUL \<in> set b0" and maxlen: "strlen b0 \<le> INT_MAX"
    and inv: "stripInv b0 v" and wf: "wfOut (stripOut v)"
  shows "\<exists>w. stripLoop v = Some w \<and> stripInv b0 w \<and> sv_i w = strlen b0
    \<and> wfOut (stripOut w)"
proof (rule stripLoop_rule [where P = "\<lambda>v. wfOut (stripOut v)", OF nul maxlen _ inv wf])
  fix v w
  assume "stripInv b0 v" "sv_i v < strlen b0" "wfOut (stripOut v)" "stripStep v = Some w"
  then show "wfOut (stripOut w)" by (rule stripStep_out [OF nul maxlen])
qed

lemma stripStart_inv: "stripInv b (stripStart b) \<and> wfOut (stripOut (stripStart b))"
  by (simp add: stripInv_def stripStart_def stripOut_def wfOut_def)

lemma stripCodeBufferVars_result:
  assumes nul: "NUL \<in> set b" and maxlen: "strlen b \<le> INT_MAX"
  shows "\<exists>w. stripLoop (stripStart b) = Some w
    \<and> stripCodeBufferVars b
        = Some (w\<lparr>sv_buf := (sv_buf w)[sv_pos w := NUL],
                  sv_stores := sv_stores w @ [sv_pos w]\<rparr>)
    \<and> stripInv b w \<and> sv_i w = strlen b \<and> wfOut (stripOut w)
    \<and> cstring ((sv_buf w)[sv_pos w := NUL]) = stripOut w"
proof -
  from strlen_props(1) [OF nul] have n: "strlen b < length b" .
  from stripStart_inv [of b] have "stripInv b (stripStart b)" "wfOut (stripOut (stripStart b))"
    by simp_all
  from stripLoop_result [OF nul maxlen this] obtain w where
    w: "stripLoop (stripStart b) = Some w" "stripInv b w" "sv_i w = strlen b"
      "wfOut (stripOut w)"
    by blast
  from w(2,3) n have p: "sv_pos w < length (sv_buf w)"
    by (simp add: stripInv_def)
  have ok: "\<And>k. k < sv_pos w \<Longrightarrow> sv_buf w ! k \<noteq> NUL"
  proof -
    fix k assume k: "k < sv_pos w"
    with p have "sv_buf w ! k \<in> set (stripOut w)"
      by (auto simp: stripOut_def in_set_conv_nth intro!: exI [of _ k])
    with w(4) show "sv_buf w ! k \<noteq> NUL" by (auto simp: wfOut_def okchar_def)
  qed
  have "takeWhile (\<lambda>c. c \<noteq> NUL) ((sv_buf w)[sv_pos w := NUL])
      = take (sv_pos w) ((sv_buf w)[sv_pos w := NUL])"
    by (rule takeWhile_eq_take_P_nth) (use ok p in \<open>simp_all add: nth_list_update\<close>)
  then have "cstring ((sv_buf w)[sv_pos w := NUL]) = stripOut w"
    by (simp add: cstring_def stripOut_def)
  with w p show ?thesis by (auto simp: stripCodeBufferVars_def)
qed

lemma stripTurns_inv:
  assumes nul: "NUL \<in> set b0" and maxlen: "strlen b0 \<le> INT_MAX"
  shows "stripInv b0 v \<Longrightarrow> stripTurns k v = Some w \<Longrightarrow> stripInv b0 w"
proof (induction k arbitrary: v)
  case 0
  then show ?case by simp
next
  case (Suc k)
  from strlen_props [OF nul] have n: "strlen b0 < length b0" and z: "b0 ! strlen b0 = NUL"
    by blast+
  from Suc.prems(1) have i: "sv_i v \<le> strlen b0"
    and cur: "sv_buf v ! sv_i v = b0 ! sv_i v" and len: "length (sv_buf v) = length b0"
    using n by (simp_all add: stripInv_def)
  have rd: "readBuf (sv_buf v) (sv_i v) = Some (b0 ! sv_i v)"
    using i n cur len by (simp add: readBuf_def)
  with Suc.prems(2) have nz: "b0 ! sv_i v \<noteq> NUL"
    by (auto split: if_splits)
  with z i have lt: "sv_i v < strlen b0"
    by (cases "sv_i v = strlen b0") auto
  from stripStep_inv [OF nul maxlen Suc.prems(1) lt] obtain u where
    u: "stripStep v = Some u" "stripInv b0 u" by blast
  with Suc.prems(2) rd nz have "stripTurns k u = Some w" by simp
  from Suc.IH [OF u(2) this] show ?case .
qed

lemma stripLoop_turns: "stripLoop v = Some w \<Longrightarrow> \<exists>k. stripTurns k v = Some w"
proof (induction v rule: stripLoop.induct)
  case (1 v)
  show ?case
  proof (cases "readBuf (sv_buf v) (sv_i v)")
    case None
    with "1.prems" show ?thesis by (subst (asm) stripLoop.simps) simp
  next
    case (Some c)
    show ?thesis
    proof (cases "c = NUL")
      case True
      with Some "1.prems" have "w = v" by (subst (asm) stripLoop.simps) simp
      then have "stripTurns 0 v = Some w" by simp
      then show ?thesis by blast
    next
      case False
      with Some "1.prems" obtain u where u: "stripStep v = Some u" "stripLoop u = Some w"
        by (subst (asm) stripLoop.simps) (auto split: option.splits)
      from "1.IH" [OF Some False u(1) u(2)] obtain k where "stripTurns k u = Some w" by blast
      with Some False u(1) have "stripTurns (Suc k) v = Some w" by simp
      then show ?thesis by blast
    qed
  qed
qed

lemma opensComment_nthD:
  "opensComment s \<Longrightarrow>
   \<exists>k. Suc k < length s \<and> s ! k = CHR ''/'' \<and> (s ! Suc k = CHR ''*'' \<or> s ! Suc k = CHR ''/'')"
proof (induction s rule: opensComment.induct)
  case (1 a b r)
  show ?case
  proof (cases "a = CHR ''/'' \<and> (b = CHR ''*'' \<or> b = CHR ''/'')")
    case True
    then have "Suc 0 < length (a # b # r) \<and> (a # b # r) ! 0 = CHR ''/''
        \<and> ((a # b # r) ! Suc 0 = CHR ''*'' \<or> (a # b # r) ! Suc 0 = CHR ''/'')"
      by simp
    then show ?thesis by blast
  next
    case False
    with "1.prems" have "opensComment (b # r)" by simp
    from "1.IH" [OF this] obtain k where
      "Suc k < length (b # r)" "(b # r) ! k = CHR ''/''"
      "(b # r) ! Suc k = CHR ''*'' \<or> (b # r) ! Suc k = CHR ''/''" by blast
    then have "Suc (Suc k) < length (a # b # r) \<and> (a # b # r) ! Suc k = CHR ''/''
        \<and> ((a # b # r) ! Suc (Suc k) = CHR ''*'' \<or> (a # b # r) ! Suc (Suc k) = CHR ''/'')"
      by simp
    then show ?thesis by blast
  qed
qed simp_all

lemma opensComment_nthI:
  "Suc k < length s \<Longrightarrow> s ! k = CHR ''/'' \<Longrightarrow>
   s ! Suc k = CHR ''*'' \<or> s ! Suc k = CHR ''/'' \<Longrightarrow> opensComment s"
proof (induction s arbitrary: k rule: opensComment.induct)
  case (1 a b r)
  show ?case
  proof (cases k)
    case 0
    with "1.prems" show ?thesis by simp
  next
    case (Suc j)
    with "1.prems" have "opensComment (b # r)"
      by (intro "1.IH" [of j]) simp_all
    then show ?thesis by simp
  qed
qed simp_all

lemma cstring_nth: "k < strlen b \<Longrightarrow> cstring b ! k = b ! k"
  unfolding strlen_def cstring_def by (rule takeWhile_nth)

lemma stripStep_fixed:
  assumes nul: "NUL \<in> set b0" and maxlen: "strlen b0 \<le> INT_MAX"
    and wf: "wfOut (cstring b0)" and noc: "\<not> opensComment (cstring b0)"
    and lt: "sv_i v < strlen b0"
    and fixed: "sv_buf v = b0 \<and> sv_pos v = sv_i v \<and> sv_state v = st_none_t"
    and stp: "stripStep v = Some w"
  shows "sv_buf w = b0 \<and> sv_pos w = sv_i w \<and> sv_state w = st_none_t"
proof -
  from strlen_props [OF nul] have n: "strlen b0 < length b0" and z: "b0 ! strlen b0 = NUL"
    by blast+
  let ?c = "b0 ! sv_i v"
  have len: "length (cstring b0) = strlen b0" by (simp add: strlen_def)
  have "cstring b0 ! sv_i v \<in> set (cstring b0)" using lt len by simp
  with wf have ok: "okchar ?c" using cstring_nth [OF lt] by (auto simp: wfOut_def)
  have p1: "sv_pos v < length (sv_buf v)" using fixed lt n by simp
  have p2: "sv_pos v < INT_MAX" using fixed lt maxlen by simp
  have rd: "readBuf (sv_buf v) (sv_i v) = Some ?c" using fixed lt n by (simp add: readBuf_def)
  have same: "(sv_buf v)[sv_pos v := ?c] = b0" using fixed by simp
  have sw: "stripSwitch ?c v
      = Some (v\<lparr>sv_buf := b0, sv_pos := sv_pos v + 1, sv_stores := sv_stores v @ [sv_pos v]\<rparr>)"
  proof (cases "?c = CHR ''/''")
    case True
    have nx: "b0 ! Suc (sv_i v) \<noteq> CHR ''*'' \<and> b0 ! Suc (sv_i v) \<noteq> CHR ''/''"
    proof (cases "Suc (sv_i v) < strlen b0")
      case True
      with noc \<open>?c = CHR ''/''\<close> opensComment_nthI [of "sv_i v" "cstring b0"] lt
      show ?thesis by (auto simp: len cstring_nth)
    next
      case False
      with lt have "Suc (sv_i v) = strlen b0" by simp
      with z show ?thesis by (simp add: NUL_def)
    qed
    have "readBuf (sv_buf v) (sv_i v + 1) = Some (b0 ! Suc (sv_i v))"
      using fixed lt n by (simp add: readBuf_def)
    with True nx fixed same show ?thesis
      by (simp add: stripSwitch_def putChar_eq [OF p1 p2])
  next
    case False
    show ?thesis
    proof (cases "isspace ?c")
      case True
      with ok have sp: "?c = CHR '' ''" by (simp add: okchar_def)
      have pos0: "0 < sv_i v"
      proof (rule ccontr)
        assume "\<not> 0 < sv_i v"
        then have "sv_i v = 0" by simp
        with sp lt have ne: "cstring b0 \<noteq> []" and "cstring b0 ! 0 = CHR '' ''"
          using cstring_nth [of 0 b0] len by auto
        then have "hd (cstring b0) = CHR '' ''" by (simp add: hd_conv_nth)
        note this ne
        with wf show False by (simp add: wfOut_def)
      qed
      have "Suc (sv_i v - 1) < length (cstring b0)" using pos0 lt len by simp
      moreover have "cstring b0 ! Suc (sv_i v - 1) = CHR '' ''"
        using pos0 sp cstring_nth [OF lt] by simp
      ultimately have "cstring b0 ! (sv_i v - 1) \<noteq> CHR '' ''"
        using wf unfolding wfOut_def by blast
      then have prev: "b0 ! (sv_i v - 1) \<noteq> CHR '' ''"
        using cstring_nth [of "sv_i v - 1" b0] lt by simp
      from True False sp fixed same prev pos0 show ?thesis
        by (simp add: stripSwitch_def putSpace_eq [OF p1 p2])
    next
      case nsp: False
      from ok have "?c \<noteq> CHR 0x22" "?c \<noteq> CHR 0x27" "?c \<noteq> CHR 0x5C"
        by (simp_all add: okchar_def)
      with False nsp fixed same show ?thesis
        by (simp add: stripSwitch_def putChar_eq [OF p1 p2])
    qed
  qed
  have "sv_i v < INT_MAX" using lt maxlen by simp
  with rd sw stp fixed show ?thesis
    by (auto simp: stripStep_def)
qed

lemma stripCodeBuffer_fixed:
  assumes nul: "NUL \<in> set b" and maxlen: "strlen b \<le> INT_MAX"
    and wf: "wfOut (cstring b)" and noc: "\<not> opensComment (cstring b)"
  shows "stripCodeBuffer b = Some b"
proof -
  let ?P = "\<lambda>v. sv_buf v = b \<and> sv_pos v = sv_i v \<and> sv_state v = st_none_t"
  have "\<exists>w. stripLoop (stripStart b) = Some w \<and> stripInv b w \<and> sv_i w = strlen b \<and> ?P w"
  proof (rule stripLoop_rule [where P = ?P, OF nul maxlen])
    fix v w
    assume "sv_i v < strlen b" "?P v" "stripStep v = Some w"
    then show "?P w" by (rule stripStep_fixed [OF nul maxlen wf noc])
  next
    show "stripInv b (stripStart b)" using stripStart_inv [of b] by simp
    show "?P (stripStart b)" by (simp add: stripStart_def)
  qed
  then obtain w where w: "stripLoop (stripStart b) = Some w" "sv_i w = strlen b"
    "sv_buf w = b" "sv_pos w = sv_i w" by blast
  from strlen_props [OF nul] have "strlen b < length b" "b ! strlen b = NUL" by blast+
  with w have "b[strlen b := NUL] = b" "sv_pos w < length (sv_buf w)"
    by (simp_all add: list_update_same_conv)
  with w show ?thesis
    by (simp add: stripCodeBuffer_def stripCodeBufferVars_def)
qed

lemma stripSwitch_enters_comment:
  assumes "sv_state v = st_none_t" and "c = CHR ''/''"
    and "readBuf (sv_buf v) (sv_i v + 1) = Some x" and "x = CHR ''*'' \<or> x = CHR ''/''"
    and "stripSwitch c v = Some u"
  shows "sv_pos u = sv_pos v"
  using assms by (auto simp: stripSwitch_def)

lemma stripCodeBuffer_shrinks:
  assumes nul: "NUL \<in> set b" and maxlen: "strlen b \<le> INT_MAX"
    and oc: "opensComment (cstring b)"
  shows "\<exists>w. stripLoop (stripStart b) = Some w \<and> stripInv b w \<and> sv_i w = strlen b
    \<and> sv_pos w < strlen b"
proof -
  from strlen_props [OF nul] have n: "strlen b < length b" by blast
  have len: "length (cstring b) = strlen b" by (simp add: strlen_def)
  from opensComment_nthD [OF oc] obtain k where
    k: "Suc k < strlen b" "b ! k = CHR ''/''" "b ! Suc k = CHR ''*'' \<or> b ! Suc k = CHR ''/''"
    using len cstring_nth [of _ b] by (metis Suc_lessD)
  let ?P = "\<lambda>v. sv_pos v = sv_i v \<longrightarrow> sv_state v = st_none_t \<and> sv_i v \<le> k"
  have "\<exists>w. stripLoop (stripStart b) = Some w \<and> stripInv b w \<and> sv_i w = strlen b \<and> ?P w"
  proof (rule stripLoop_rule [where P = ?P, OF nul maxlen])
    fix v w
    assume inv: "stripInv b v" and lt: "sv_i v < strlen b" and p: "?P v"
      and stp: "stripStep v = Some w"
    from stripStep_inv [OF nul maxlen inv lt] stp have
      iw: "sv_i w = sv_i v + 1"
      and eff: "sv_pos w = sv_pos v \<or> sv_pos w = sv_pos v + 1 \<and> sv_state w = st_none_t"
      by auto
    from inv have pi: "sv_pos v \<le> sv_i v" by (simp add: stripInv_def)
    show "?P w"
    proof
      assume e: "sv_pos w = sv_i w"
      with eff iw pi have pv: "sv_pos v = sv_i v" and posw: "sv_pos w = sv_pos v + 1"
        and stw: "sv_state w = st_none_t" by auto
      from p pv have stv: "sv_state v = st_none_t" and ik: "sv_i v \<le> k" by simp_all
      have "sv_i v \<noteq> k"
      proof
        assume ek: "sv_i v = k"
        from inv lt n ek k have cur: "sv_buf v ! sv_i v = CHR ''/''"
          and nxt: "sv_buf v ! (sv_i v + 1) = b ! Suc k"
          and len': "length (sv_buf v) = length b"
          by (simp_all add: stripInv_def)
        have r1: "readBuf (sv_buf v) (sv_i v) = Some (CHR ''/'')"
          using cur lt n len' by (simp add: readBuf_def)
        have r2: "readBuf (sv_buf v) (sv_i v + 1) = Some (b ! Suc k)"
          using nxt ek k(1) n len' by (simp add: readBuf_def)
        from stp r1 obtain u where u: "stripSwitch (CHR ''/'') v = Some u"
          and wu: "w = u\<lparr>sv_i := sv_i u + 1\<rparr>"
          by (auto simp: stripStep_def split: option.splits if_splits)
        from stripSwitch_enters_comment [OF stv refl r2 k(3) u] wu posw
        show False by simp
      qed
      with ik iw stw show "sv_state w = st_none_t \<and> sv_i w \<le> k" by simp
    qed
  next
    show "stripInv b (stripStart b)" using stripStart_inv [of b] by simp
    show "?P (stripStart b)" by (simp add: stripStart_def)
  qed
  then obtain w where w: "stripLoop (stripStart b) = Some w" "stripInv b w"
    "sv_i w = strlen b" "?P w" by blast
  from w(3,4) k(1) have "sv_pos w \<noteq> sv_i w" by auto
  with w(2,3) have "sv_pos w < strlen b" by (simp add: stripInv_def)
  with w show ?thesis by blast
qed

subsection \<open>Comments are removed\<close>

lemma slashJoin_nthI:
  "Suc k < length s \<Longrightarrow> s ! k = CHR ''/'' \<Longrightarrow>
   s ! Suc k = CHR 0x22 \<or> s ! Suc k = CHR 0x27 \<or> s ! Suc k = CHR 0x5C \<Longrightarrow> slashJoin s"
proof (induction s arbitrary: k rule: slashJoin.induct)
  case (1 a b r)
  show ?case
  proof (cases k)
    case 0
    with "1.prems" show ?thesis by simp
  next
    case (Suc j)
    with "1.prems" have "slashJoin (b # r)"
      by (intro "1.IH" [of j]) simp_all
    then show ?thesis by simp
  qed
qed simp_all

lemma opensComment_snoc:
  "opensComment (xs @ [d]) \<longleftrightarrow>
     opensComment xs \<or> (xs \<noteq> [] \<and> last xs = CHR ''/'' \<and> (d = CHR ''*'' \<or> d = CHR ''/''))"
proof (induction xs rule: opensComment.induct)
  case (1 a b r)
  then show ?case by auto
qed simp_all

lemma opensComment_piece:
  assumes "opensComment s"
  shows "opensComment (pre @ s @ post)"
proof -
  from opensComment_nthD [OF assms] obtain k where
    k: "Suc k < length s" "s ! k = CHR ''/''"
    "s ! Suc k = CHR ''*'' \<or> s ! Suc k = CHR ''/''" by blast
  have "Suc (length pre + k) < length (pre @ s @ post)" using k(1) by simp
  moreover have "(pre @ s @ post) ! (length pre + k) = CHR ''/''"
    using k(1,2) by (simp add: nth_append)
  moreover have "(pre @ s @ post) ! Suc (length pre + k) = s ! Suc k"
    using k(1) by (simp add: nth_append)
  ultimately show ?thesis using k(3) opensComment_nthI by metis
qed

lemma take_update_snoc:
  "p < length xs \<Longrightarrow> take (Suc p) (xs[p := d]) = take p xs @ [d]"
  by (simp add: take_Suc_conv_app_nth)

lemma stripStep_noComment:
  assumes nul: "NUL \<in> set b0" and maxlen: "strlen b0 \<le> INT_MAX"
    and nj: "\<not> slashJoin (cstring b0)"
    and inv: "stripInv b0 v" and lt: "sv_i v < strlen b0"
    and q: "noCommentInv b0 v" and stp: "stripStep v = Some w"
  shows "noCommentInv b0 w"
proof -
  from strlen_props [OF nul] have n: "strlen b0 < length b0" by blast
  from inv have len: "length (sv_buf v) = length b0" and pi: "sv_pos v \<le> sv_i v"
    and unread: "\<And>k. sv_i v \<le> k \<Longrightarrow> k < length b0 \<Longrightarrow> sv_buf v ! k = b0 ! k"
    and cc: "sv_state v = st_c_comment_t \<longrightarrow> 0 < sv_i v"
    by (simp_all add: stripInv_def)
  let ?c = "b0 ! sv_i v"
  let ?J = "0 < sv_pos v \<and> sv_buf v ! (sv_pos v - 1) = CHR ''/''"
  have rd: "readBuf (sv_buf v) (sv_i v) = Some ?c"
    using unread [of "sv_i v"] lt n len by (simp add: readBuf_def)
  have rd1: "readBuf (sv_buf v) (sv_i v + 1) = Some (b0 ! Suc (sv_i v))"
    using unread [of "Suc (sv_i v)"] lt n len by (simp add: readBuf_def)
  have p1: "sv_pos v < length (sv_buf v)" using pi lt n len by simp
  have p2: "sv_pos v < INT_MAX" using pi lt maxlen by simp
  have imax: "sv_i v < INT_MAX" using lt maxlen by simp
  from q have noc: "\<not> opensComment (stripOut v)"
    and j: "?J \<Longrightarrow> sv_state v = st_none_t \<and> 0 < sv_i v \<and> b0 ! (sv_i v - 1) = CHR ''/''
          \<and> ?c \<noteq> CHR ''*'' \<and> ?c \<noteq> CHR ''/''"
    by (simp_all add: noCommentInv_def)
  have lit: "?J \<Longrightarrow> ?c \<noteq> CHR 0x22 \<and> ?c \<noteq> CHR 0x27 \<and> ?c \<noteq> CHR 0x5C"
  proof -
    assume "?J"
    with j have i0: "0 < sv_i v" and sl: "b0 ! (sv_i v - 1) = CHR ''/''" by simp_all
    have l: "length (cstring b0) = strlen b0" by (simp add: strlen_def)
    have "Suc (sv_i v - 1) < length (cstring b0)" using i0 lt l by simp
    moreover have "cstring b0 ! (sv_i v - 1) = CHR ''/''"
      using sl cstring_nth [of "sv_i v - 1" b0] lt by simp
    moreover have "cstring b0 ! Suc (sv_i v - 1) = ?c"
      using i0 cstring_nth [OF lt] by simp
    ultimately show ?thesis using nj slashJoin_nthI [of "sv_i v - 1" "cstring b0"] by metis
  qed
  have lastout: "0 < sv_pos v \<Longrightarrow> stripOut v \<noteq> [] \<and> last (stripOut v) = sv_buf v ! (sv_pos v - 1)"
    using last_take_nth [of "sv_pos v" "sv_buf v"] p1 by (simp add: stripOut_def)
  have out0: "sv_pos v = 0 \<Longrightarrow> stripOut v = []" by (simp add: stripOut_def)
  obtain u where u: "stripSwitch ?c v = Some u" and w: "w = u\<lparr>sv_i := sv_i u + 1\<rparr>"
    using stp rd by (auto simp: stripStep_def split: option.splits if_splits)
  show ?thesis
  proof (cases "sv_state v = st_none_t")
    case False
    with j have nJ: "\<not> ?J" by blast
    from False u cc rd have
      "(sv_buf u = sv_buf v \<and> sv_pos u = sv_pos v \<and> sv_i u = sv_i v)
       \<or> (sv_buf u = (sv_buf v)[sv_pos v := CHR '' ''] \<and> sv_pos u = sv_pos v + 1
           \<and> sv_i u = sv_i v)"
      by (cases "sv_state v")
         (auto simp add: stripSwitch_def putSpace_eq [OF p1 p2] readBuf_def
           split: if_splits option.splits)
    then show ?thesis
    proof
      assume "sv_buf u = sv_buf v \<and> sv_pos u = sv_pos v \<and> sv_i u = sv_i v"
      with w noc nJ show ?thesis by (auto simp add: noCommentInv_def stripOut_def)
    next
      assume a: "sv_buf u = (sv_buf v)[sv_pos v := CHR '' ''] \<and> sv_pos u = sv_pos v + 1
           \<and> sv_i u = sv_i v"
      then have "stripOut w = stripOut v @ [CHR '' '']"
        using w p1 by (simp add: stripOut_def take_update_snoc)
      with a w noc p1 show ?thesis
        by (simp add: noCommentInv_def opensComment_snoc)
    qed
  next
    case none: True
    show ?thesis
    proof (cases "?c = CHR ''/''")
      case True
      with j have nJ: "\<not> ?J" by blast
      show ?thesis
      proof (cases "b0 ! Suc (sv_i v) = CHR ''*'' \<or> b0 ! Suc (sv_i v) = CHR ''/''")
        case True
        with \<open>?c = CHR ''/''\<close> none u rd1 have
          "sv_buf u = sv_buf v \<and> sv_pos u = sv_pos v \<and> sv_i u = sv_i v"
          by (auto simp add: stripSwitch_def)
        with w noc nJ show ?thesis by (auto simp add: noCommentInv_def stripOut_def)
      next
        case False
        with \<open>?c = CHR ''/''\<close> none u rd1 have a:
          "sv_buf u = (sv_buf v)[sv_pos v := CHR ''/''] \<and> sv_pos u = sv_pos v + 1
           \<and> sv_i u = sv_i v \<and> sv_state u = st_none_t"
          by (auto simp add: stripSwitch_def putChar_eq [OF p1 p2])
        then have o: "stripOut w = stripOut v @ [CHR ''/'']"
          using w p1 by (simp add: stripOut_def take_update_snoc)
        have "\<not> opensComment (stripOut w)"
          using o noc nJ lastout out0 by (cases "sv_pos v = 0") (auto simp: opensComment_snoc)
        with a w False \<open>?c = CHR ''/''\<close> p1 show ?thesis
          by (simp add: noCommentInv_def)
      qed
    next
      case ns: False
      show ?thesis
      proof (cases "?c = CHR 0x22 \<or> ?c = CHR 0x27 \<or> ?c = CHR 0x5C")
        case True
        with lit have nJ: "\<not> ?J" by blast
        from True ns none u have
          "sv_buf u = sv_buf v \<and> sv_pos u = sv_pos v \<and> sv_i u = sv_i v"
          by (auto simp add: stripSwitch_def split: if_splits)
        with w noc nJ show ?thesis by (auto simp add: noCommentInv_def stripOut_def)
      next
        case False
        with ns none have sw: "stripSwitch ?c v = (if isspace ?c then putSpace v else putChar ?c v)"
          by (simp add: stripSwitch_def)
        have "(sv_buf u = sv_buf v \<and> sv_pos u = sv_pos v \<and> sv_i u = sv_i v \<and> \<not> ?J)
           \<or> (\<exists>d. d \<noteq> CHR ''/'' \<and> (d = ?c \<or> d = CHR '' '')
                \<and> sv_buf u = (sv_buf v)[sv_pos v := d] \<and> sv_pos u = sv_pos v + 1
                \<and> sv_i u = sv_i v)"
        proof (cases "isspace ?c")
          case True
          show ?thesis
          proof (cases "0 < sv_pos v \<and> sv_buf v ! (sv_pos v - 1) \<noteq> CHR '' ''")
            case True
            with \<open>isspace ?c\<close> sw u have
              "u = v\<lparr> sv_buf := (sv_buf v)[sv_pos v := CHR '' ''], sv_pos := sv_pos v + 1,
                  sv_stores := sv_stores v @ [sv_pos v] \<rparr>"
              by (simp add: putSpace_eq [OF p1 p2])
            then have "CHR '' '' \<noteq> CHR ''/'' \<and> (CHR '' '' = ?c \<or> CHR '' '' = CHR '' '')
                \<and> sv_buf u = (sv_buf v)[sv_pos v := CHR '' ''] \<and> sv_pos u = sv_pos v + 1
                \<and> sv_i u = sv_i v" by simp
            then show ?thesis by blast
          next
            case False
            with \<open>isspace ?c\<close> sw u have "u = v" by (auto simp add: putSpace_eq [OF p1 p2])
            moreover from False have "\<not> ?J" by auto
            ultimately show ?thesis by simp
          qed
        next
          case False
          with sw u have
            "u = v\<lparr> sv_buf := (sv_buf v)[sv_pos v := ?c], sv_pos := sv_pos v + 1,
                  sv_stores := sv_stores v @ [sv_pos v] \<rparr>"
            by (simp add: putChar_eq [OF p1 p2])
          with ns have "?c \<noteq> CHR ''/'' \<and> (?c = ?c \<or> ?c = CHR '' '')
                \<and> sv_buf u = (sv_buf v)[sv_pos v := ?c] \<and> sv_pos u = sv_pos v + 1
                \<and> sv_i u = sv_i v" by simp
          then show ?thesis by blast
        qed
        then show ?thesis
        proof
          assume "sv_buf u = sv_buf v \<and> sv_pos u = sv_pos v \<and> sv_i u = sv_i v \<and> \<not> ?J"
          with w noc show ?thesis by (auto simp add: noCommentInv_def stripOut_def)
        next
          assume "\<exists>d. d \<noteq> CHR ''/'' \<and> (d = ?c \<or> d = CHR '' '')
                \<and> sv_buf u = (sv_buf v)[sv_pos v := d] \<and> sv_pos u = sv_pos v + 1
                \<and> sv_i u = sv_i v"
          then obtain d where d: "d \<noteq> CHR ''/''" "d = ?c \<or> d = CHR '' ''"
            "sv_buf u = (sv_buf v)[sv_pos v := d]" "sv_pos u = sv_pos v + 1"
            "sv_i u = sv_i v" by blast
          have o: "stripOut w = stripOut v @ [d]"
            using w p1 d by (simp add: stripOut_def take_update_snoc)
          have "\<not> (stripOut v \<noteq> [] \<and> last (stripOut v) = CHR ''/''
                  \<and> (d = CHR ''*'' \<or> d = CHR ''/''))"
          proof
            assume x: "stripOut v \<noteq> [] \<and> last (stripOut v) = CHR ''/''
                  \<and> (d = CHR ''*'' \<or> d = CHR ''/'')"
            then have "0 < sv_pos v" using out0 by (cases "sv_pos v = 0") auto
            with x lastout have "?J" by simp
            with j d(2) x show False by auto
          qed
          with o noc have "\<not> opensComment (stripOut w)" by (simp add: opensComment_snoc)
          with d w p1 show ?thesis by (simp add: noCommentInv_def)
        qed
      qed
    qed
  qed
qed

lemma stripCodeBuffer_noComment:
  assumes nul: "NUL \<in> set b" and maxlen: "strlen b \<le> INT_MAX"
    and nj: "\<not> slashJoin (cstring b)" and r: "stripCodeBuffer b = Some b1"
  shows "\<not> opensComment (cstring b1)"
proof -
  have "\<exists>w. stripLoop (stripStart b) = Some w \<and> stripInv b w \<and> sv_i w = strlen b
      \<and> noCommentInv b w"
  proof (rule stripLoop_rule [where P = "noCommentInv b", OF nul maxlen])
    fix v w
    assume "stripInv b v" "sv_i v < strlen b" "noCommentInv b v" "stripStep v = Some w"
    then show "noCommentInv b w" by (rule stripStep_noComment [OF nul maxlen nj])
  next
    show "stripInv b (stripStart b)" using stripStart_inv [of b] by simp
    show "noCommentInv b (stripStart b)"
      by (simp add: noCommentInv_def stripStart_def stripOut_def)
  qed
  then obtain w where w: "stripLoop (stripStart b) = Some w" "noCommentInv b w" by blast
  from stripCodeBufferVars_result [OF nul maxlen] w(1) obtain w' where
    "stripLoop (stripStart b) = Some w'"
    "stripCodeBufferVars b
        = Some (w'\<lparr>sv_buf := (sv_buf w')[sv_pos w' := NUL],
                  sv_stores := sv_stores w' @ [sv_pos w']\<rparr>)"
    "cstring ((sv_buf w')[sv_pos w' := NUL]) = stripOut w'" by blast
  with w r show ?thesis by (auto simp: stripCodeBuffer_def noCommentInv_def)
qed

lemmas strip_eval =
  stripCodeBuffer_def stripCodeBufferVars_def stripStart_def stripLoop.simps stripStep_def
  stripSwitch_def readBuf_def putChar_def putSpace_def NUL_def INT_MAX_def cstring_def
  strlen_def isspace_def

lemma stripCodeBuffer_total:
  assumes nul: "NUL \<in> set b" and maxlen: "strlen b \<le> INT_MAX"
  shows "\<exists>b1. stripCodeBuffer b = Some b1 \<and> NUL \<in> set b1 \<and> length b1 = length b
    \<and> strlen b1 \<le> strlen b \<and> wfOut (cstring b1)
    \<and> (\<forall>k. strlen b \<le> k \<longrightarrow> k < length b \<longrightarrow> b1 ! k = b ! k)"
proof -
  from strlen_props [OF nul] have n: "strlen b < length b" and z: "b ! strlen b = NUL"
    by blast+
  from stripCodeBufferVars_result [OF nul maxlen] obtain w where
    w: "stripCodeBufferVars b
        = Some (w\<lparr>sv_buf := (sv_buf w)[sv_pos w := NUL],
                  sv_stores := sv_stores w @ [sv_pos w]\<rparr>)"
      "stripInv b w" "sv_i w = strlen b" "wfOut (stripOut w)"
      "cstring ((sv_buf w)[sv_pos w := NUL]) = stripOut w"
    by blast
  let ?b1 = "(sv_buf w)[sv_pos w := NUL]"
  from w(2,3) n have len: "length (sv_buf w) = length b" and pn: "sv_pos w \<le> strlen b"
    and rest: "\<And>k. strlen b \<le> k \<Longrightarrow> k < length b \<Longrightarrow> sv_buf w ! k = b ! k"
    by (simp_all add: stripInv_def)
  have p: "sv_pos w < length (sv_buf w)" using pn n len by simp
  have 1: "stripCodeBuffer b = Some ?b1" using w(1) by (simp add: stripCodeBuffer_def)
  have 2: "NUL \<in> set ?b1" using p by (simp add: set_update_memI)
  have 3: "strlen ?b1 = sv_pos w" using w(5) p by (simp add: strlen_def stripOut_def)
  have 4: "\<And>k. strlen b \<le> k \<Longrightarrow> k < length b \<Longrightarrow> ?b1 ! k = b ! k"
    using rest z pn len by (auto simp add: nth_list_update)
  from 1 2 3 4 len pn w(4,5) show ?thesis by simp
qed

text \<open>
  C5 (as amended). A second pass of \<^verbatim>\<open>stripCodeBuffer\<close> leaves the whole buffer as
  the first pass left it exactly when the stripped text holds neither \<^verbatim>\<open>/*\<close> nor
  \<^verbatim>\<open>//\<close>; when it holds one, the second pass takes it for a comment and the text
  gets strictly shorter.
\<close>

theorem stripCodeBuffer_idempotent_iff:
  assumes nul: "NUL \<in> set b" and maxlen: "strlen b \<le> INT_MAX"
  shows "\<exists>b1. stripCodeBuffer b = Some b1
    \<and> (\<not> opensComment (cstring b1) \<longrightarrow> stripCodeBuffer b1 = Some b1)
    \<and> (opensComment (cstring b1) \<longrightarrow>
         (\<exists>b2. stripCodeBuffer b1 = Some b2 \<and> strlen b2 < strlen b1))"
proof -
  from stripCodeBuffer_total [OF nul maxlen] obtain b1 where
    b1: "stripCodeBuffer b = Some b1" "NUL \<in> set b1" "strlen b1 \<le> strlen b"
      "wfOut (cstring b1)" by blast
  from b1(3) maxlen have max1: "strlen b1 \<le> INT_MAX" by simp
  have fixed: "\<not> opensComment (cstring b1) \<longrightarrow> stripCodeBuffer b1 = Some b1"
    using stripCodeBuffer_fixed [OF b1(2) max1 b1(4)] by simp
  have shrink: "opensComment (cstring b1) \<longrightarrow>
      (\<exists>b2. stripCodeBuffer b1 = Some b2 \<and> strlen b2 < strlen b1)"
  proof
    assume oc: "opensComment (cstring b1)"
    from stripCodeBuffer_shrinks [OF b1(2) max1 oc] obtain w where
      w: "stripLoop (stripStart b1) = Some w" "stripInv b1 w" "sv_pos w < strlen b1" by blast
    from stripCodeBufferVars_result [OF b1(2) max1] w(1) have
      v: "stripCodeBufferVars b1
          = Some (w\<lparr>sv_buf := (sv_buf w)[sv_pos w := NUL],
                    sv_stores := sv_stores w @ [sv_pos w]\<rparr>)"
        "cstring ((sv_buf w)[sv_pos w := NUL]) = stripOut w"
      by auto
    from strlen_props(1) [OF b1(2)] w(2,3) have "sv_pos w < length (sv_buf w)"
      by (simp add: stripInv_def)
    with v(2) have "strlen ((sv_buf w)[sv_pos w := NUL]) = sv_pos w"
      by (simp add: strlen_def stripOut_def)
    with v(1) w(3) show "\<exists>b2. stripCodeBuffer b1 = Some b2 \<and> strlen b2 < strlen b1"
      by (simp add: stripCodeBuffer_def)
  qed
  from b1(1) fixed shrink show ?thesis by blast
qed

lemma strip_example_plain:
  "stripCodeBuffer (''a /*x*/ b'' @ [NUL]) = Some (''a b'' @ [NUL] @ ''x*/ b'' @ [NUL])"
  by (simp add: strip_eval)

lemma strip_example_joined:
  "stripCodeBuffer [CHR ''/'', CHR 0x22, CHR 0x22, CHR ''/'', CHR ''x'', NUL]
     = Some [CHR ''/'', CHR ''/'', CHR ''x'', NUL, CHR ''x'', NUL]"
  by (simp add: strip_eval)

theorem stripCodeBuffer_idempotent_iff_witness:
  "NUL \<in> set (''a /*x*/ b'' @ [NUL]) \<and> strlen (''a /*x*/ b'' @ [NUL]) \<le> INT_MAX
   \<and> \<not> opensComment (cstring (''a b'' @ [NUL] @ ''x*/ b'' @ [NUL]))
   \<and> stripCodeBuffer (''a b'' @ [NUL] @ ''x*/ b'' @ [NUL])
       = Some (''a b'' @ [NUL] @ ''x*/ b'' @ [NUL])
   \<and> opensComment (cstring [CHR ''/'', CHR ''/'', CHR ''x'', NUL, CHR ''x'', NUL])
   \<and> (\<exists>b2. stripCodeBuffer [CHR ''/'', CHR ''/'', CHR ''x'', NUL, CHR ''x'', NUL] = Some b2
         \<and> strlen b2 < strlen [CHR ''/'', CHR ''/'', CHR ''x'', NUL, CHR ''x'', NUL])"
proof -
  have h1: "NUL \<in> set (''a /*x*/ b'' @ [NUL])" by simp
  have h2: "strlen (''a /*x*/ b'' @ [NUL]) \<le> INT_MAX"
    by (simp add: strlen_def cstring_def NUL_def INT_MAX_def)
  have h3: "\<not> opensComment (cstring (''a b'' @ [NUL] @ ''x*/ b'' @ [NUL]))"
    by (simp add: cstring_def NUL_def)
  have g1: "NUL \<in> set [CHR ''/'', CHR 0x22, CHR 0x22, CHR ''/'', CHR ''x'', NUL]" by simp
  have g2: "strlen [CHR ''/'', CHR 0x22, CHR 0x22, CHR ''/'', CHR ''x'', NUL] \<le> INT_MAX"
    by (simp add: strlen_def cstring_def NUL_def INT_MAX_def)
  have g3: "opensComment (cstring [CHR ''/'', CHR ''/'', CHR ''x'', NUL, CHR ''x'', NUL])"
    by (simp add: cstring_def NUL_def)
  from stripCodeBuffer_idempotent_iff [OF h1 h2] strip_example_plain h3
  have a: "stripCodeBuffer (''a b'' @ [NUL] @ ''x*/ b'' @ [NUL])
       = Some (''a b'' @ [NUL] @ ''x*/ b'' @ [NUL])"
    by auto
  from stripCodeBuffer_idempotent_iff [OF g1 g2] strip_example_joined g3
  have b: "\<exists>b2. stripCodeBuffer [CHR ''/'', CHR ''/'', CHR ''x'', NUL, CHR ''x'', NUL] = Some b2
         \<and> strlen b2 < strlen [CHR ''/'', CHR ''/'', CHR ''x'', NUL, CHR ''x'', NUL]"
    by auto
  from h1 h2 h3 a g3 b show ?thesis by blast
qed

text \<open>
  C5 as stated fails: the text \<^verbatim>\<open>/""/x\<close> strips to \<^verbatim>\<open>//x\<close> (the empty string
  literal between the slashes is dropped), and \<^verbatim>\<open>//x\<close> strips to the empty text.
\<close>

theorem stripCodeBuffer_not_idempotent:
  "stripCodeBuffer [CHR ''/'', CHR 0x22, CHR 0x22, CHR ''/'', CHR ''x'', NUL]
     = Some [CHR ''/'', CHR ''/'', CHR ''x'', NUL, CHR ''x'', NUL]
   \<and> stripCodeBuffer [CHR ''/'', CHR ''/'', CHR ''x'', NUL, CHR ''x'', NUL]
     = Some [NUL, CHR ''/'', CHR ''x'', NUL, CHR ''x'', NUL]
   \<and> cstring [CHR ''/'', CHR ''/'', CHR ''x'', NUL, CHR ''x'', NUL] = ''//x''
   \<and> cstring [NUL, CHR ''/'', CHR ''x'', NUL, CHR ''x'', NUL] = []"
  by (simp add: strip_eval)

text \<open>
  C10 (as amended). On a NUL-terminated buffer whose string is no longer than
  \<^verbatim>\<open>INT_MAX\<close>, \<^verbatim>\<open>stripCodeBuffer\<close> runs without a fault; at the head of every turn
  of its loop \<open>pos \<le> i \<le> strlen\<close> and every store made so far went to an index
  below \<open>i\<close>, so the loop only stores below the original NUL. The closing store
  \<^verbatim>\<open>buf[pos] = '\0'\<close> goes to the index that is the new string length, which is at
  most the old one; no byte from the original NUL on changes its value.
\<close>

theorem stripCodeBuffer_in_place:
  assumes nul: "NUL \<in> set b" and maxlen: "strlen b \<le> INT_MAX"
  shows "(\<forall>k v. stripTurns k (stripStart b) = Some v \<longrightarrow>
            sv_pos v \<le> sv_i v \<and> sv_i v \<le> strlen b
            \<and> (\<forall>j \<in> set (sv_stores v). j < sv_i v))
    \<and> (\<exists>v. stripCodeBufferVars b = Some v
          \<and> (\<forall>j \<in> set (butlast (sv_stores v)). j < strlen b)
          \<and> sv_stores v \<noteq> [] \<and> last (sv_stores v) = strlen (sv_buf v)
          \<and> strlen (sv_buf v) \<le> strlen b
          \<and> length (sv_buf v) = length b
          \<and> (\<forall>k. strlen b \<le> k \<longrightarrow> k < length b \<longrightarrow> sv_buf v ! k = b ! k))"
proof -
  from strlen_props [OF nul] have n: "strlen b < length b" and z: "b ! strlen b = NUL"
    by blast+
  have turns: "\<forall>k v. stripTurns k (stripStart b) = Some v \<longrightarrow>
            sv_pos v \<le> sv_i v \<and> sv_i v \<le> strlen b
            \<and> (\<forall>j \<in> set (sv_stores v). j < sv_i v)"
  proof (intro allI impI)
    fix k v assume "stripTurns k (stripStart b) = Some v"
    with stripTurns_inv [OF nul maxlen, of "stripStart b" k v] stripStart_inv [of b]
    have "stripInv b v" by simp
    then show "sv_pos v \<le> sv_i v \<and> sv_i v \<le> strlen b
            \<and> (\<forall>j \<in> set (sv_stores v). j < sv_i v)"
      by (simp add: stripInv_def)
  qed
  from stripCodeBufferVars_result [OF nul maxlen] obtain w where
    w: "stripCodeBufferVars b
        = Some (w\<lparr>sv_buf := (sv_buf w)[sv_pos w := NUL],
                  sv_stores := sv_stores w @ [sv_pos w]\<rparr>)"
      "stripInv b w" "sv_i w = strlen b"
      "cstring ((sv_buf w)[sv_pos w := NUL]) = stripOut w"
    by blast
  from w(2,3) n have len: "length (sv_buf w) = length b" and pn: "sv_pos w \<le> strlen b"
    and rest: "\<And>k. strlen b \<le> k \<Longrightarrow> k < length b \<Longrightarrow> sv_buf w ! k = b ! k"
    and st: "\<forall>j \<in> set (sv_stores w). j < strlen b"
    by (simp_all add: stripInv_def)
  have p: "sv_pos w < length (sv_buf w)" using pn n len by simp
  have sl: "strlen ((sv_buf w)[sv_pos w := NUL]) = sv_pos w"
    using w(4) p by (simp add: strlen_def stripOut_def)
  have unch: "\<forall>k. strlen b \<le> k \<longrightarrow> k < length b \<longrightarrow> (sv_buf w)[sv_pos w := NUL] ! k = b ! k"
    using rest z pn len by (auto simp add: nth_list_update)
  from w(1) st sl pn len unch turns show ?thesis by simp
qed

lemma strip_example_turns:
  "stripTurns (Suc (Suc (Suc (Suc (Suc 0))))) (stripStart (''/**/a'' @ [NUL]))
     = Some \<lparr> sv_buf = ''a**/a'' @ [NUL], sv_i = 5, sv_pos = 1, sv_state = st_none_t,
              sv_prev_state = st_none_t, sv_stores = [0] \<rparr>"
  by (simp add: stripStart_def stripStep_def stripSwitch_def readBuf_def
      putChar_def putSpace_def NUL_def INT_MAX_def isspace_def)

lemma strip_example_vars:
  "stripCodeBufferVars (''/**/a'' @ [NUL])
     = Some \<lparr> sv_buf = [CHR ''a'', NUL, CHR ''*'', CHR ''/'', CHR ''a'', NUL], sv_i = 5,
              sv_pos = 1, sv_state = st_none_t, sv_prev_state = st_none_t,
              sv_stores = [0, 1] \<rparr>"
  by (simp add: stripCodeBufferVars_def stripStart_def stripLoop.simps stripStep_def
      stripSwitch_def readBuf_def putChar_def putSpace_def NUL_def INT_MAX_def isspace_def)

theorem stripCodeBuffer_in_place_witness:
  "NUL \<in> set (''/**/a'' @ [NUL]) \<and> strlen (''/**/a'' @ [NUL]) \<le> INT_MAX
   \<and> strlen (''/**/a'' @ [NUL]) = 5
   \<and> (\<exists>v. stripTurns (Suc (Suc (Suc (Suc (Suc 0))))) (stripStart (''/**/a'' @ [NUL])) = Some v
         \<and> sv_pos v \<le> sv_i v \<and> sv_i v \<le> strlen (''/**/a'' @ [NUL])
         \<and> (\<forall>j \<in> set (sv_stores v). j < sv_i v))
   \<and> (\<exists>v. stripCodeBufferVars (''/**/a'' @ [NUL]) = Some v
         \<and> sv_stores v = [0, 1]
         \<and> last (sv_stores v) = strlen (sv_buf v)
         \<and> strlen (sv_buf v) \<le> strlen (''/**/a'' @ [NUL]))"
proof -
  have h1: "NUL \<in> set (''/**/a'' @ [NUL])" by simp
  have h3: "strlen (''/**/a'' @ [NUL]) = 5"
    by (simp add: strlen_def cstring_def NUL_def)
  have h2: "strlen (''/**/a'' @ [NUL]) \<le> INT_MAX"
    unfolding h3 by (simp add: INT_MAX_def)
  note inst = stripCodeBuffer_in_place [OF h1 h2]
  from inst [THEN conjunct1, rule_format, OF strip_example_turns] strip_example_turns
  have t: "\<exists>v. stripTurns (Suc (Suc (Suc (Suc (Suc 0))))) (stripStart (''/**/a'' @ [NUL])) = Some v
         \<and> sv_pos v \<le> sv_i v \<and> sv_i v \<le> strlen (''/**/a'' @ [NUL])
         \<and> (\<forall>j \<in> set (sv_stores v). j < sv_i v)"
    by blast
  from inst [THEN conjunct2] obtain v where
    v: "stripCodeBufferVars (''/**/a'' @ [NUL]) = Some v"
      "last (sv_stores v) = strlen (sv_buf v)"
      "strlen (sv_buf v) \<le> strlen (''/**/a'' @ [NUL])"
    by blast
  from v(1) strip_example_vars have "sv_stores v = [0, 1]" by simp
  with v have f: "\<exists>v. stripCodeBufferVars (''/**/a'' @ [NUL]) = Some v
         \<and> sv_stores v = [0, 1]
         \<and> last (sv_stores v) = strlen (sv_buf v)
         \<and> strlen (sv_buf v) \<le> strlen (''/**/a'' @ [NUL])"
    by blast
  from h1 h2 h3 t f show ?thesis by blast
qed

text \<open>
  C10 as stated fails on its middle part: when nothing is dropped, as on the string
  \<^verbatim>\<open>a\<close>, the closing store \<^verbatim>\<open>buf[pos] = '\0'\<close> goes to index 1, the index of
  the original terminating NUL.
\<close>

theorem stripCodeBuffer_stores_at_terminator:
  "strlen (''a'' @ [NUL]) = 1
   \<and> map_option sv_stores (stripCodeBufferVars (''a'' @ [NUL])) = Some [0, 1]"
  by (simp add: strlen_def cstring_def stripCodeBufferVars_def stripStart_def stripLoop.simps
      stripStep_def stripSwitch_def readBuf_def putChar_def putSpace_def NUL_def INT_MAX_def
      isspace_def)

section \<open>Properties of getArglistFromStr\<close>

lemma strstr_suffix: "strstr s n = Some t \<Longrightarrow> \<exists>pre. s = pre @ t"
proof (induction s)
  case Nil
  then show ?case by (simp split: if_splits)
next
  case (Cons c cs)
  show ?case
  proof (cases "take (length n) (c # cs) = n")
    case True
    with Cons.prems have "t = c # cs" by simp
    then have "c # cs = [] @ t" by simp
    then show ?thesis by blast
  next
    case False
    with Cons.prems have "strstr cs n = Some t" by simp
    from Cons.IH [OF this] obtain pre where "cs = pre @ t" by blast
    then have "c # cs = (c # pre) @ t" by simp
    then show ?thesis by blast
  qed
qed

lemma strchr_suffix:
  "strchr t c = Some u \<Longrightarrow> \<exists>pre. t = pre @ u \<and> u \<noteq> [] \<and> hd u = c"
proof (induction t)
  case Nil
  then show ?case by simp
next
  case (Cons x xs)
  show ?case
  proof (cases "x = c")
    case True
    with Cons.prems have "u = x # xs" by simp
    with True have "x # xs = [] @ u \<and> u \<noteq> [] \<and> hd u = c" by simp
    then show ?thesis by blast
  next
    case False
    with Cons.prems have "strchr xs c = Some u" by simp
    from Cons.IH [OF this] obtain pre where "xs = pre @ u" "u \<noteq> []" "hd u = c" by blast
    then have "x # xs = (x # pre) @ u \<and> u \<noteq> [] \<and> hd u = c" by simp
    then show ?thesis by blast
  qed
qed

lemma scanLevel_stop: "level \<le> 0 \<Longrightarrow> scanLevel level cs = []"
  by (cases cs) simp_all

lemma scanLevel_prefix: "\<exists>post. cs = scanLevel level cs @ post"
proof (induction cs arbitrary: level)
  case Nil
  then show ?case by simp
next
  case (Cons c cs)
  show ?case
  proof (cases "level > 0")
    case True
    let ?l = "if c = CHR ''('' then level + 1 else if c = CHR '')'' then level - 1 else level"
    from Cons.IH [of ?l] obtain post where "cs = scanLevel ?l cs @ post" by blast
    with True have "c # cs = scanLevel level (c # cs) @ post" by simp
    then show ?thesis by blast
  next
    case False
    then show ?thesis by simp
  qed
qed

lemma scanLevel_depth:
  "0 < level \<Longrightarrow> k < length (scanLevel level cs) \<Longrightarrow>
   0 < level + parenDepth (take k (scanLevel level cs))"
proof (induction cs arbitrary: level k)
  case Nil
  then show ?case by simp
next
  case (Cons c cs)
  let ?l = "if c = CHR ''('' then level + 1 else if c = CHR '')'' then level - 1 else level"
  from Cons.prems(1) have r: "scanLevel level (c # cs) = c # scanLevel ?l cs" by simp
  show ?case
  proof (cases k)
    case 0
    with Cons.prems(1) show ?thesis by simp
  next
    case (Suc j)
    with Cons.prems(2) r have j: "j < length (scanLevel ?l cs)" by simp
    have pos: "0 < ?l"
    proof (rule ccontr)
      assume "\<not> 0 < ?l"
      then have "scanLevel ?l cs = []" by (intro scanLevel_stop) simp
      with j show False by simp
    qed
    from Cons.IH [OF pos j] have "0 < ?l + parenDepth (take j (scanLevel ?l cs))" .
    moreover have "level + parenDepth (take k (scanLevel level (c # cs)))
        = ?l + parenDepth (take j (scanLevel ?l cs))"
      unfolding r Suc by simp
    ultimately show ?thesis by simp
  qed
qed

lemma scanLevel_end:
  "0 < level \<Longrightarrow>
   (level + parenDepth (scanLevel level cs) = 0 \<and> scanLevel level cs \<noteq> []
      \<and> last (scanLevel level cs) = CHR '')'')
   \<or> (scanLevel level cs = cs \<and> 0 < level + parenDepth cs)"
proof (induction cs arbitrary: level)
  case Nil
  then show ?case by simp
next
  case (Cons c cs)
  let ?l = "if c = CHR ''('' then level + 1 else if c = CHR '')'' then level - 1 else level"
  from Cons.prems have r: "scanLevel level (c # cs) = c # scanLevel ?l cs" by simp
  have d: "level + parenDepth (c # xs) = ?l + parenDepth xs" for xs by simp
  show ?case
  proof (cases "0 < ?l")
    case True
    from Cons.IH [OF True] show ?thesis
    proof
      assume a: "?l + parenDepth (scanLevel ?l cs) = 0 \<and> scanLevel ?l cs \<noteq> []
          \<and> last (scanLevel ?l cs) = CHR '')''"
      then have "level + parenDepth (scanLevel level (c # cs)) = 0"
        unfolding r d by simp
      moreover from a have "last (scanLevel level (c # cs)) = CHR '')''"
        unfolding r by simp
      ultimately show ?thesis unfolding r by simp
    next
      assume a: "scanLevel ?l cs = cs \<and> 0 < ?l + parenDepth cs"
      then have "scanLevel level (c # cs) = c # cs" unfolding r by simp
      moreover from a have "0 < level + parenDepth (c # cs)" unfolding d by simp
      ultimately show ?thesis by simp
    qed
  next
    case False
    with Cons.prems have c: "c = CHR '')''" and l: "level = 1"
      by (auto split: if_splits)
    from False have "scanLevel ?l cs = []" by (intro scanLevel_stop) simp
    with r have "scanLevel level (c # cs) = [c]" by simp
    with c l show ?thesis by simp
  qed
qed

text \<open>
  C1 (as amended). With a NUL-terminated buffer (or none), \<^verbatim>\<open>getArglistFromStr\<close>
  returns NULL or a string \<open>s\<close> that is a piece of the stripped buffer, starts with
  \<^verbatim>\<open>(\<close>, holds no quote, backslash or NUL and no white space but single spaces, and
  has positive parenthesis depth after every proper non-empty prefix. If the opening
  parenthesis is closed in the stripped buffer, \<open>s\<close> ends with the matching \<^verbatim>\<open>)\<close>
  and is balanced; otherwise \<open>s\<close> is all the rest of the stripped buffer and its
  depth stays positive. The comments are removed: unless a slash of the buffer is
  directly followed by a quote or a backslash (where dropping the literal or the escape
  can join the slash with a later character), neither the stripped buffer nor \<open>s\<close>
  holds \<^verbatim>\<open>/*\<close> or \<^verbatim>\<open>//\<close>.
\<close>

theorem getArglistFromStr_result:
  assumes ok: "\<forall>b. buf = Some b \<longrightarrow> NUL \<in> set b \<and> strlen b \<le> INT_MAX"
  shows "getArglistFromStr buf name = Some None
    \<or> (\<exists>b b1 s pre post. buf = Some b \<and> stripCodeBuffer b = Some b1
          \<and> getArglistFromStr buf name = Some (Some s)
          \<and> cstring b1 = pre @ s @ post
          \<and> s \<noteq> [] \<and> hd s = CHR ''(''
          \<and> (\<forall>c \<in> set s. okchar c)
          \<and> (\<forall>k. 0 < k \<longrightarrow> k < length s \<longrightarrow> 0 < parenDepth (take k s))
          \<and> (balanced s \<and> last s = CHR '')'' \<or> 0 < parenDepth s \<and> post = [])
          \<and> (\<not> slashJoin (cstring b) \<longrightarrow>
                \<not> opensComment (cstring b1) \<and> \<not> opensComment s))"
proof (cases buf)
  case None
  then show ?thesis by (simp add: getArglistFromStr_def)
next
  case (Some b)
  with ok have nul: "NUL \<in> set b" and maxlen: "strlen b \<le> INT_MAX" by simp_all
  from stripCodeBuffer_total [OF nul maxlen] obtain b1 where
    b1: "stripCodeBuffer b = Some b1" "wfOut (cstring b1)" by blast
  show ?thesis
  proof (cases name)
    case None
    with Some show ?thesis by (simp add: getArglistFromStr_def)
  next
    case nm: (Some n)
    show ?thesis
    proof (cases "n = []")
      case True
      with Some nm show ?thesis by (simp add: getArglistFromStr_def)
    next
      case nonempty: False
      show ?thesis
      proof (cases "strstr (cstring b1) n")
        case None
        with Some nm nonempty b1(1) show ?thesis by (simp add: getArglistFromStr_def)
      next
        case st: (Some start)
        show ?thesis
        proof (cases "strchr start (CHR ''('')")
          case None
          with Some nm nonempty b1(1) st show ?thesis by (simp add: getArglistFromStr_def)
        next
          case sc: (Some start1)
          let ?r = "scanLevel 1 (tl start1)"
          let ?s = "CHR ''('' # ?r"
          from strstr_suffix [OF st] obtain pre1 where p1: "cstring b1 = pre1 @ start" by blast
          from strchr_suffix [OF sc] obtain pre2 where
            p2: "start = pre2 @ start1" "start1 \<noteq> []" "hd start1 = CHR ''(''" by blast
          from p2(2,3) have s1: "start1 = CHR ''('' # tl start1" by (cases start1) simp_all
          from scanLevel_prefix [of "tl start1" 1] obtain post where
            post: "tl start1 = ?r @ post" by blast
          have res: "getArglistFromStr buf name = Some (Some ?s)"
            using Some nm nonempty b1(1) st sc p2(3) by (simp add: getArglistFromStr_def)
          have seg: "cstring b1 = (pre1 @ pre2) @ ?s @ post"
            using p1 p2(1) s1 post by (metis append.assoc append_Cons)
          have chars: "\<forall>c \<in> set ?s. okchar c"
          proof
            fix c assume "c \<in> set ?s"
            then have "c \<in> set (cstring b1)" unfolding seg by auto
            with b1(2) show "okchar c" by (simp add: wfOut_def)
          qed
          have pre: "\<forall>k. 0 < k \<longrightarrow> k < length ?s \<longrightarrow> 0 < parenDepth (take k ?s)"
          proof (intro allI impI)
            fix k assume k: "0 < k" "k < length ?s"
            then obtain j where j: "k = Suc j" by (cases k) simp_all
            with k(2) have "j < length ?r" by simp
            from scanLevel_depth [OF _ this] have "0 < 1 + parenDepth (take j ?r)" by simp
            with j show "0 < parenDepth (take k ?s)" by simp
          qed
          have fin: "balanced ?s \<and> last ?s = CHR '')'' \<or> 0 < parenDepth ?s \<and> post = []"
          proof -
            from scanLevel_end [of 1 "tl start1"] have
              "(1 + parenDepth ?r = 0 \<and> ?r \<noteq> [] \<and> last ?r = CHR '')'')
               \<or> (?r = tl start1 \<and> 0 < 1 + parenDepth (tl start1))" by simp
            then show ?thesis
            proof
              assume a: "1 + parenDepth ?r = 0 \<and> ?r \<noteq> [] \<and> last ?r = CHR '')''"
              then have z: "parenDepth ?s = 0" and l: "last ?s = CHR '')''" by simp_all
              have "\<forall>k \<le> length ?s. 0 \<le> parenDepth (take k ?s)"
              proof (intro allI impI)
                fix k assume kl: "k \<le> length ?s"
                show "0 \<le> parenDepth (take k ?s)"
                proof (cases "0 < k \<and> k < length ?s")
                  case True
                  with pre have "0 < parenDepth (take k ?s)" by blast
                  then show ?thesis by simp
                next
                  case False
                  with kl have "k = 0 \<or> k = length ?s" by auto
                  with z show ?thesis by auto
                qed
              qed
              with z l show ?thesis by (simp add: balanced_def)
            next
              assume a: "?r = tl start1 \<and> 0 < 1 + parenDepth (tl start1)"
              with post have "post = []" by simp
              moreover from a have "0 < parenDepth ?s" by simp
              ultimately show ?thesis by simp
            qed
          qed
          have noc: "\<not> slashJoin (cstring b) \<longrightarrow>
                \<not> opensComment (cstring b1) \<and> \<not> opensComment ?s"
          proof
            assume "\<not> slashJoin (cstring b)"
            from stripCodeBuffer_noComment [OF nul maxlen this b1(1)]
            have w: "\<not> opensComment (cstring b1)" .
            with opensComment_piece [of ?s "pre1 @ pre2" post] seg
            show "\<not> opensComment (cstring b1) \<and> \<not> opensComment ?s" by auto
          qed
          from Some b1(1) res seg chars pre fin noc show ?thesis
            by (intro disjI2 exI [of _ b] exI [of _ b1] exI [of _ ?s]
                exI [of _ "pre1 @ pre2"] exI [of _ post]) simp
        qed
      qed
    qed
  qed
qed

lemmas arglist_eval =
  getArglistFromStr_def stripCodeBuffer_def stripCodeBufferVars_def stripStart_def
  stripLoop.simps stripStep_def stripSwitch_def readBuf_def putChar_def putSpace_def
  NUL_def INT_MAX_def cstring_def strlen_def isspace_def

lemma arglist_example:
  "getArglistFromStr (Some (''#define f(a, b) (a+b)'' @ [NUL])) (Some ''f'')
     = Some (Some ''(a, b)'')"
  by (simp add: arglist_eval)

lemma arglist_example_comments:
  "getArglistFromStr (Some (''g(a/*x*/, b)//y'' @ [NUL])) (Some ''g'')
     = Some (Some ''(a , b)'')"
  by (simp add: arglist_eval)

theorem getArglistFromStr_result_witness:
  "NUL \<in> set (''#define f(a, b) (a+b)'' @ [NUL])
   \<and> strlen (''#define f(a, b) (a+b)'' @ [NUL]) \<le> INT_MAX
   \<and> getArglistFromStr (Some (''#define f(a, b) (a+b)'' @ [NUL])) (Some ''f'')
       = Some (Some ''(a, b)'')
   \<and> hd ''(a, b)'' = CHR ''(''
   \<and> list_all okchar ''(a, b)''
   \<and> balanced ''(a, b)'' \<and> last ''(a, b)'' = CHR '')''
   \<and> NUL \<in> set (''g(a/*x*/, b)//y'' @ [NUL])
   \<and> strlen (''g(a/*x*/, b)//y'' @ [NUL]) \<le> INT_MAX
   \<and> \<not> slashJoin (cstring (''g(a/*x*/, b)//y'' @ [NUL]))
   \<and> getArglistFromStr (Some (''g(a/*x*/, b)//y'' @ [NUL])) (Some ''g'')
       = Some (Some ''(a , b)'')
   \<and> \<not> opensComment ''(a , b)''"
proof -
  have h0: "NUL \<in> set (''#define f(a, b) (a+b)'' @ [NUL])
      \<and> strlen (''#define f(a, b) (a+b)'' @ [NUL]) \<le> INT_MAX"
    by (simp add: strlen_def cstring_def NUL_def INT_MAX_def)
  then have h: "\<forall>b. Some (''#define f(a, b) (a+b)'' @ [NUL]) = Some b
        \<longrightarrow> NUL \<in> set b \<and> strlen b \<le> INT_MAX"
    by blast
  have n1: "getArglistFromStr (Some (''#define f(a, b) (a+b)'' @ [NUL])) (Some ''f'')
      \<noteq> Some None" using arglist_example by simp
  from getArglistFromStr_result [OF h, of "Some ''f''"] n1
  obtain s post where s:
    "getArglistFromStr (Some (''#define f(a, b) (a+b)'' @ [NUL])) (Some ''f'') = Some (Some s)"
    "hd s = CHR ''(''" "\<forall>c \<in> set s. okchar c"
    "balanced s \<and> last s = CHR '')'' \<or> 0 < parenDepth s \<and> post = []"
    by blast
  from s(1) arglist_example have e: "s = ''(a, b)''" by simp
  have "parenDepth ''(a, b)'' = 0" by simp
  with s(2,3,4) e h0 arglist_example have first:
    "NUL \<in> set (''#define f(a, b) (a+b)'' @ [NUL])
     \<and> strlen (''#define f(a, b) (a+b)'' @ [NUL]) \<le> INT_MAX
     \<and> getArglistFromStr (Some (''#define f(a, b) (a+b)'' @ [NUL])) (Some ''f'')
         = Some (Some ''(a, b)'')
     \<and> hd ''(a, b)'' = CHR ''(''
     \<and> list_all okchar ''(a, b)''
     \<and> balanced ''(a, b)'' \<and> last ''(a, b)'' = CHR '')''"
    by (simp add: list_all_iff)
  have g0: "NUL \<in> set (''g(a/*x*/, b)//y'' @ [NUL])
      \<and> strlen (''g(a/*x*/, b)//y'' @ [NUL]) \<le> INT_MAX"
    by (simp add: strlen_def cstring_def NUL_def INT_MAX_def)
  then have g: "\<forall>b. Some (''g(a/*x*/, b)//y'' @ [NUL]) = Some b
        \<longrightarrow> NUL \<in> set b \<and> strlen b \<le> INT_MAX"
    by blast
  have nj: "\<not> slashJoin (cstring (''g(a/*x*/, b)//y'' @ [NUL]))"
    by (simp add: cstring_def NUL_def)
  have n2: "getArglistFromStr (Some (''g(a/*x*/, b)//y'' @ [NUL])) (Some ''g'') \<noteq> Some None"
    using arglist_example_comments by simp
  from getArglistFromStr_result [OF g, of "Some ''g''"] n2
  obtain b b1 t where t: "Some (''g(a/*x*/, b)//y'' @ [NUL]) = Some b"
    "getArglistFromStr (Some (''g(a/*x*/, b)//y'' @ [NUL])) (Some ''g'') = Some (Some t)"
    "\<not> slashJoin (cstring b) \<longrightarrow> \<not> opensComment (cstring b1) \<and> \<not> opensComment t"
    by blast
  from t(1) have "b = ''g(a/*x*/, b)//y'' @ [NUL]" by simp
  moreover from t(2) arglist_example_comments have "t = ''(a , b)''" by simp
  ultimately have "\<not> opensComment ''(a , b)''" using t(3) nj by blast
  with first g0 nj arglist_example_comments show ?thesis by blast
qed

text \<open>
  C1 as stated fails: when the parenthesis opened behind the name is never closed, the
  scan stops at the end of the string and the rest of the buffer is returned, which
  neither ends with \<^verbatim>\<open>)\<close> nor is balanced.
\<close>

theorem getArglistFromStr_unbalanced:
  "getArglistFromStr (Some (''f(a'' @ [NUL])) (Some ''f'') = Some (Some ''(a'')
   \<and> last ''(a'' \<noteq> CHR '')'' \<and> \<not> balanced ''(a''"
  by (simp add: arglist_eval balanced_def)

text \<open>
  The returned text can also hold the pair \<^verbatim>\<open>//\<close>: dropping the empty string
  literal of \<^verbatim>\<open>f(/""/)\<close> joins the two slashes.
\<close>

lemma getArglistFromStr_joined_slashes:
  "getArglistFromStr
     (Some [CHR ''f'', CHR ''('', CHR ''/'', CHR 0x22, CHR 0x22, CHR ''/'', CHR '')'', NUL])
     (Some ''f'') = Some (Some ''(//)'')
   \<and> opensComment ''(//)''"
  by (simp add: arglist_eval)

section \<open>Properties of the skippers\<close>

lemma blockCommentLoop_result:
  "fst (blockCommentLoop star c st) = SPACE \<or> fst (blockCommentLoop star c st) = EOF"
proof (induction star c st rule: blockCommentLoop.induct)
  case (1 star c st)
  obtain c1 st1 where g: "getcFromInputFile st = (c1, st1)" by (cases "getcFromInputFile st")
  show ?case
  proof (cases "c \<noteq> EOF")
    case False
    then show ?thesis by (subst (1 2) blockCommentLoop.simps) simp
  next
    case ne: True
    show ?thesis
    proof (cases "c \<noteq> star")
      case True
      from "1.IH"(1) [OF ne True g [symmetric]] g ne True
      show ?thesis by (subst (1 2) blockCommentLoop.simps) simp
    next
      case st: False
      show ?thesis
      proof (cases "c1 \<noteq> 47")
        case True
        from "1.IH"(2) [OF ne st g [symmetric] True] g ne st True
        show ?thesis by (subst (1 2) blockCommentLoop.simps) simp
      next
        case False
        with g ne st show ?thesis by (subst (1 2) blockCommentLoop.simps) simp
      qed
    qed
  qed
qed

lemma skipOverCplusComment_result:
  "fst (skipOverCplusComment st) = NEWLINE \<or> fst (skipOverCplusComment st) = EOF"
proof (induction st rule: skipOverCplusComment.induct)
  case (1 st)
  obtain c st1 where g: "getcFromInputFile st = (c, st1)" by (cases "getcFromInputFile st")
  show ?case
  proof (cases "c \<noteq> EOF")
    case False
    with g show ?thesis by (subst (1 2) skipOverCplusComment.simps) simp
  next
    case ne: True
    show ?thesis
    proof (cases "c = BACKSLASH")
      case True
      from "1.IH"(1) [OF g [symmetric] ne True] g ne True
      show ?thesis by (subst (1 2) skipOverCplusComment.simps) simp
    next
      case nbs: False
      show ?thesis
      proof (cases "c = NEWLINE")
        case True
        with g ne nbs show ?thesis by (subst (1 2) skipOverCplusComment.simps) simp
      next
        case False
        from "1.IH"(2) [OF g [symmetric] ne nbs False] g ne nbs False
        show ?thesis by (subst (1 2) skipOverCplusComment.simps) simp
      qed
    qed
  qed
qed

text \<open>
  C7 (as amended). \<^verbatim>\<open>skipOverCComment\<close> and \<^verbatim>\<open>skipOverDComment\<close> return the space
  that replaces the comment, or \<^verbatim>\<open>EOF\<close>; \<^verbatim>\<open>skipOverCplusComment\<close> returns the
  newline that ends the comment, or \<^verbatim>\<open>EOF\<close>. No other value is returned.
\<close>

theorem comment_skippers_return:
  "(fst (skipOverCComment st) = SPACE \<or> fst (skipOverCComment st) = EOF)
   \<and> (fst (skipOverDComment st) = SPACE \<or> fst (skipOverDComment st) = EOF)
   \<and> (fst (skipOverCplusComment st) = NEWLINE \<or> fst (skipOverCplusComment st) = EOF)"
proof -
  obtain c st1 where g: "getcFromInputFile st = (c, st1)" by (cases "getcFromInputFile st")
  from blockCommentLoop_result [of 42 c st1] g
  have "fst (skipOverCComment st) = SPACE \<or> fst (skipOverCComment st) = EOF"
    by (simp add: skipOverCComment_def)
  moreover from blockCommentLoop_result [of 43 c st1] g
  have "fst (skipOverDComment st) = SPACE \<or> fst (skipOverDComment st) = EOF"
    by (simp add: skipOverDComment_def)
  ultimately show ?thesis using skipOverCplusComment_result [of st] by simp
qed

text \<open>
  C7 as stated fails for the C++ skipper: on the comment text \<^verbatim>\<open>x\<close> followed by a
  newline it returns the newline, which is neither the space nor \<^verbatim>\<open>EOF\<close>.
\<close>

theorem skipOverCplusComment_returns_newline:
  "fst (skipOverCplusComment (Cpp (openFile [CHR ''x'', CHR 0x0A]))) = NEWLINE
   \<and> NEWLINE \<noteq> SPACE \<and> NEWLINE \<noteq> EOF"
  by (simp add: skipOverCplusComment.simps getcFromInputFile_def Cpp_def openFile_def
      NEWLINE_def SPACE_def EOF_def BACKSLASH_def)

section \<open>Directive words\<close>

lemma getc_ungetc: 
  assumes "getcFromInputFile st = (c, st1)"
  shows "getcFromInputFile (fileUngetc c st1) = (c, st1)"
  by (simp add: getcFromInputFile_def fileUngetc_def)

lemma readDirectiveLoop_result:
  assumes "0 < i" "i \<le> m - 1" "1 \<le> m"
  shows "\<exists>j cs st'. i + j \<le> m - 1 \<and> readChars j st = (cs, st') \<and> list_all wordChar cs
           \<and> (if i + j < m - 1
              then (case getcFromInputFile st' of
                      (t, st'') \<Rightarrow> \<not> wordChar t
                        \<and> readDirectiveLoop i m c name st
                            = (t, name @ map char_of cs, fileUngetc t st''))
              else readDirectiveLoop i m c name st = (last (c # cs), name @ map char_of cs, st'))"
  using assms
proof (induction i m c name st rule: readDirectiveLoop.induct)
  case (1 i m c name st)
  obtain c1 st1 where g: "getcFromInputFile st = (c1, st1)" by (cases "getcFromInputFile st")
  from "1.prems" have up: "unsignedPred m = m - 1" by (simp add: unsignedPred_def)
  show ?case
  proof (cases "i < m - 1")
    case False
    with "1.prems" have e: "i = m - 1" by simp
    have "readDirectiveLoop i m c name st = (c, name, st)"
      using e up by (subst readDirectiveLoop.simps) simp
    with e show ?thesis
      by (intro exI [of _ 0] exI [of _ "[]"] exI [of _ st]) simp
  next
    case lt: True
    show ?thesis
    proof (cases "wordChar c1")
      case False
      have "readDirectiveLoop i m c name st = (c1, name, fileUngetc c1 st1)"
        using lt up "1.prems"(1) g False
        by (subst readDirectiveLoop.simps) (auto simp: wordChar_def)
      with lt g False show ?thesis
        by (intro exI [of _ 0] exI [of _ "[]"] exI [of _ st]) simp
    next
      case w: True
      have lt': "i < unsignedPred m" using lt up by simp
      have nt: "\<not> (c1 = EOF \<or> \<not> isalpha c1)" using w by (simp add: wordChar_def)
      have step: "readDirectiveLoop i m c name st
                    = readDirectiveLoop (i + 1) m c1 (name @ [char_of c1]) st1"
        using lt up "1.prems"(1) g nt
        by (subst readDirectiveLoop.simps) simp
      from "1.IH"(1) [OF lt' "1.prems"(1) g [symmetric] nt] lt "1.prems"(3)
      obtain j cs st' where
        j: "i + 1 + j \<le> m - 1" and r: "readChars j st1 = (cs, st')" and a: "list_all wordChar cs"
        and res: "(if i + 1 + j < m - 1
              then (case getcFromInputFile st' of
                      (t, st'') \<Rightarrow> \<not> wordChar t
                        \<and> readDirectiveLoop (i + 1) m c1 (name @ [char_of c1]) st1
                            = (t, (name @ [char_of c1]) @ map char_of cs, fileUngetc t st''))
              else readDirectiveLoop (i + 1) m c1 (name @ [char_of c1]) st1
                     = (last (c1 # cs), (name @ [char_of c1]) @ map char_of cs, st'))"
        by auto
      have r': "readChars (Suc j) st = (c1 # cs, st')" using g r by simp
      show ?thesis
        apply (intro exI [of _ "Suc j"] exI [of _ "c1 # cs"] exI [of _ st'])
        using j r' a w res step by (simp split: prod.splits if_splits)
    qed
  qed
qed

text \<open>
  C8 (as amended). For a buffer of \<open>m \<ge> 2\<close> bytes (\<open>m = 10\<close> in the one call),
  \<^verbatim>\<open>readDirective\<close> stores its argument \<open>c\<close>, unchecked, and then the alphabetic
  characters \<open>cs\<close> it reads, at most \<open>m - 2\<close> of them, and a terminating NUL: at most
  \<open>m - 1\<close> characters and the NUL. If fewer than \<open>m - 2\<close> characters were read when it
  stops, the character \<open>t\<close> read next was \<^verbatim>\<open>EOF\<close> or not alphabetic, it is given back
  and the next read returns it again. If the buffer is full, nothing is read after the
  last stored character and nothing is given back: the input is left as the reads of
  \<open>cs\<close> left it.
\<close>

theorem readDirective_result:
  assumes "2 \<le> m"
  shows "\<exists>j cs st'. j \<le> m - 2 \<and> readChars j st = (cs, st') \<and> list_all wordChar cs
           \<and> fst (snd (readDirective c m st)) = map char_of (c # cs) @ [NUL]
           \<and> length (fst (snd (readDirective c m st))) \<le> m
           \<and> (if j < m - 2
              then (case getcFromInputFile st' of
                      (t, st'') \<Rightarrow> \<not> wordChar t
                        \<and> readDirective c m st
                            = (isspacetab t, map char_of (c # cs) @ [NUL], fileUngetc t st'')
                        \<and> getcFromInputFile (snd (snd (readDirective c m st))) = (t, st''))
              else readDirective c m st
                     = (isspacetab (last (c # cs)), map char_of (c # cs) @ [NUL], st'))"
proof -
  have up: "unsignedPred m = m - 1" using assms by (simp add: unsignedPred_def)
  have first: "readDirectiveLoop 0 m c [] st = readDirectiveLoop 1 m c [char_of c] st"
    using assms up by (subst readDirectiveLoop.simps) simp
  have "0 < (1::nat)" "1 \<le> m - 1" "1 \<le> m" using assms by simp_all
  from readDirectiveLoop_result [OF this, of st c "[char_of c]"]
  obtain j cs st' where
    j: "1 + j \<le> m - 1" and r: "readChars j st = (cs, st')" and a: "list_all wordChar cs"
    and res: "(if 1 + j < m - 1
              then (case getcFromInputFile st' of
                      (t, st'') \<Rightarrow> \<not> wordChar t
                        \<and> readDirectiveLoop 1 m c [char_of c] st
                            = (t, [char_of c] @ map char_of cs, fileUngetc t st''))
              else readDirectiveLoop 1 m c [char_of c] st
                     = (last (c # cs), [char_of c] @ map char_of cs, st'))"
    by blast
  obtain t st'' where g: "getcFromInputFile st' = (t, st'')" by (cases "getcFromInputFile st'")
  have len: "length cs = j" using r
  proof (induction j arbitrary: st cs)
    case 0 then show ?case by simp
  next
    case (Suc j) then show ?case by (auto split: prod.splits)
  qed
  have j2: "j \<le> m - 2" "Suc (Suc j) \<le> m" using j assms by arith+
  show ?thesis
  proof (cases "j < m - 2")
    case True
    then have "1 + j < m - 1" by simp
    with res g have nw: "\<not> wordChar t"
      and e: "readDirectiveLoop 0 m c [] st = (t, char_of c # map char_of cs, fileUngetc t st'')"
      using first by simp_all
    show ?thesis
      apply (intro exI [of _ j] exI [of _ cs] exI [of _ st'])
      using True j2 r a g nw e len getc_ungetc [OF g] by (simp add: readDirective_def)
  next
    case False
    then have "\<not> 1 + j < m - 1" by simp
    with res have e: "readDirectiveLoop 0 m c [] st = (last (c # cs), char_of c # map char_of cs, st')"
      using first by simp
    show ?thesis
      apply (intro exI [of _ j] exI [of _ cs] exI [of _ st'])
      using False j2 r a e len by (simp add: readDirective_def)
  qed
qed


lemmas directive_eval =
  char_of_def readDirective_def readDirectiveLoop.simps unsignedPred_def getcFromInputFile_def
  fileUngetc_def Cpp_def openFile_def isalpha_def wordChar_def isspacetab_def
  MaxDirectiveName_def EOF_def SPACE_def TAB_def NUL_def

lemma readDirective_example:
  "readDirective 105 MaxDirectiveName (Cpp (openFile ''f 0''))
     = (True, ''if'' @ [NUL],
        (Cpp (openFile ''f 0''))
          \<lparr>File := \<lparr>ungetchBuf = [32], pending = ''0'', consumed = '' f''\<rparr>\<rparr>)"
  by (simp add: directive_eval)

theorem readDirective_result_witness:
  "2 \<le> MaxDirectiveName
   \<and> readDirective 105 MaxDirectiveName (Cpp (openFile ''f 0''))
       = (True, ''if'' @ [NUL],
          (Cpp (openFile ''f 0''))
            \<lparr>File := \<lparr>ungetchBuf = [32], pending = ''0'', consumed = '' f''\<rparr>\<rparr>)
   \<and> (\<exists>j cs st'. j \<le> MaxDirectiveName - 2
         \<and> readChars j (Cpp (openFile ''f 0'')) = (cs, st') \<and> list_all wordChar cs
         \<and> fst (snd (readDirective 105 MaxDirectiveName (Cpp (openFile ''f 0''))))
             = map char_of (105 # cs) @ [NUL]
         \<and> length (fst (snd (readDirective 105 MaxDirectiveName (Cpp (openFile ''f 0'')))))
             \<le> MaxDirectiveName
         \<and> (if j < MaxDirectiveName - 2
            then (case getcFromInputFile st' of
                    (t, st'') \<Rightarrow> \<not> wordChar t
                      \<and> readDirective 105 MaxDirectiveName (Cpp (openFile ''f 0''))
                          = (isspacetab t, map char_of (105 # cs) @ [NUL], fileUngetc t st'')
                      \<and> getcFromInputFile (snd (snd (readDirective 105 MaxDirectiveName
                           (Cpp (openFile ''f 0''))))) = (t, st''))
            else readDirective 105 MaxDirectiveName (Cpp (openFile ''f 0''))
                   = (isspacetab (last (105 # cs)), map char_of (105 # cs) @ [NUL], st')))"
proof -
  have m: "2 \<le> MaxDirectiveName" by (simp add: MaxDirectiveName_def)
  show ?thesis
    by (intro conjI) (rule m, rule readDirective_example, rule readDirective_result [OF m])
qed

text \<open>
  C8 as stated fails when the buffer is full: with the first character \<^verbatim>\<open>a\<close> and the
  input \<^verbatim>\<open>bcdefghijk\<close> the ninth character \<^verbatim>\<open>i\<close> is the last one read; it is
  stored, nothing is given back, and the next read returns \<^verbatim>\<open>j\<close>.
\<close>

theorem readDirective_full_no_pushback:
  "readDirective 97 MaxDirectiveName (Cpp (openFile ''bcdefghijk''))
     = (False, ''abcdefghi'' @ [NUL],
        (Cpp (openFile ''bcdefghijk''))
          \<lparr>File := \<lparr>ungetchBuf = [], pending = ''jk'', consumed = ''ihgfedcb''\<rparr>\<rparr>)
   \<and> fst (getcFromInputFile (snd (snd (readDirective 97 MaxDirectiveName
            (Cpp (openFile ''bcdefghijk'')))))) = 106"
  by (simp add: directive_eval)

section \<open>The pushback slots of cppGetc\<close>

lemma getc_slots: "slots (snd (getcFromInputFile st)) = slots st"
  by (simp add: getcFromInputFile_def slots_def split: list.splits)

lemma getc_slots': "getcFromInputFile st = (c, st1) \<Longrightarrow> slots st1 = slots st"
  using getc_slots [of st] by simp

lemma ungetc_slots [simp]: "slots (fileUngetc c st) = slots st"
  by (simp add: fileUngetc_def slots_def)

lemma blockCommentLoop_slots: "slots (snd (blockCommentLoop star c st)) = slots st"
proof (induction star c st rule: blockCommentLoop.induct)
  case (1 star c st)
  obtain c1 st1 where g: "getcFromInputFile st = (c1, st1)" by (cases "getcFromInputFile st")
  note s = getc_slots' [OF g]
  show ?case
    apply (subst blockCommentLoop.simps)
    using 1 [OF _ _ g [symmetric]] g s by (auto split: prod.splits)
qed


lemma skipOverCplusComment_slots: "slots (snd (skipOverCplusComment st)) = slots st"
proof (induction st rule: skipOverCplusComment.induct)
  case (1 st)
  obtain c st1 where g: "getcFromInputFile st = (c, st1)" by (cases "getcFromInputFile st")
  note s = getc_slots' [OF g] getc_slots [of st1]
  show ?case
    apply (subst skipOverCplusComment.simps)
    using 1 [OF g [symmetric]] g s by (auto split: prod.splits)
qed

lemma skipToEndOfStringLoop_slots: "slots (skipToEndOfStringLoop b st) = slots st"
proof (induction b st rule: skipToEndOfStringLoop.induct)
  case (1 b st)
  obtain c st1 where g: "getcFromInputFile st = (c, st1)" by (cases "getcFromInputFile st")
  note s = getc_slots' [OF g] getc_slots [of st1]
  show ?case
    apply (subst skipToEndOfStringLoop.simps)
    using 1 [OF g [symmetric]] g s by (auto split: prod.splits)
qed

lemma skipToEndOfCharLoop_slots: "slots (skipToEndOfCharLoop n v st) = slots st"
proof (induction n v st rule: skipToEndOfCharLoop.induct)
  case (1 n v st)
  obtain c st1 where g: "getcFromInputFile st = (c, st1)" by (cases "getcFromInputFile st")
  note s = getc_slots' [OF g] getc_slots [of st1]
  show ?case
    apply (subst skipToEndOfCharLoop.simps)
    using 1 [OF g [symmetric]] g s by (auto split: prod.splits)
qed

lemma matchDelim_slots: "slots (snd (snd (matchDelim delim i st))) = slots st"
proof (induction delim i st rule: matchDelim.induct)
  case (1 delim i st)
  obtain c st1 where g: "getcFromInputFile st = (c, st1)" by (cases "getcFromInputFile st")
  note s = getc_slots' [OF g]
  show ?case
    apply (subst matchDelim.simps)
    using 1 [OF g [symmetric]] g s by (auto split: prod.splits)
qed

lemma rawLiteralLoop_slots: "slots (rawLiteralLoop c b delim st) = slots st"
proof (induction c b delim st rule: rawLiteralLoop.induct)
  case (1 c b delim st)
  obtain c1 st1 where g: "getcFromInputFile st = (c1, st1)" by (cases "getcFromInputFile st")
  obtain c2 i st2 where m: "matchDelim delim 0 st = (c2, i, st2)"
    by (cases "matchDelim delim 0 st") auto
  obtain c3 st3 where g3: "getcFromInputFile (fileUngetc c2 st2) = (c3, st3)"
    by (cases "getcFromInputFile (fileUngetc c2 st2)")
  have s2: "slots st2 = slots st" using matchDelim_slots [of delim 0 st] m by simp
  have s3: "slots st3 = slots st" using getc_slots' [OF g3] s2 by simp
  note s = getc_slots' [OF g]
  show ?case
  proof (cases b)
    case True
    show ?thesis
      apply (subst rawLiteralLoop.simps)
      using "1.IH"(1,2) [OF True _ g [symmetric]] True g s by (auto split: prod.splits)
  next
    case nb: False
    show ?thesis
    proof (cases "c = 41")
      case True
      show ?thesis
        apply (subst rawLiteralLoop.simps)
        using "1.IH"(3) [OF nb True m [symmetric] refl _ g3 [symmetric]] nb True m g3 s2 s3
        by (auto split: prod.splits)
    next
      case False
      show ?thesis
        apply (subst rawLiteralLoop.simps)
        using "1.IH"(4) [OF nb False g [symmetric]] nb False g s by (auto split: prod.splits)
    qed
  qed
qed

lemma pragmaSkipSpaces_slots: "slots (snd (pragmaSkipSpaces st)) = slots st"
proof (induction st rule: pragmaSkipSpaces.induct)
  case (1 st)
  obtain c st1 where g: "getcFromInputFile st = (c, st1)" by (cases "getcFromInputFile st")
  note s = getc_slots' [OF g]
  show ?case
    apply (subst pragmaSkipSpaces.simps)
    using 1 [OF g [symmetric]] g s by (auto split: prod.splits)
qed

lemma readDirectiveLoop_slots:
  "slots (snd (snd (readDirectiveLoop i m c name st))) = slots st"
proof (induction i m c name st rule: readDirectiveLoop.induct)
  case (1 i m c name st)
  obtain c1 st1 where g: "getcFromInputFile st = (c1, st1)" by (cases "getcFromInputFile st")
  note s = getc_slots' [OF g]
  show ?case
    apply (subst readDirectiveLoop.simps)
    using "1.IH"(1) [OF _ _ g [symmetric]] "1.IH"(2) g s by (auto split: prod.splits)
qed

lemma readIdentifierLoop_slots:
  "slots (snd (readIdentifierLoop env c name st)) = slots st"
proof (induction env c name st rule: readIdentifierLoop.induct)
  case (1 env c name st)
  obtain c1 st1 where g: "getcFromInputFile st = (c1, st1)" by (cases "getcFromInputFile st")
  note s = getc_slots' [OF g]
  show ?case
    apply (subst readIdentifierLoop.simps)
    using 1 [OF g [symmetric]] g s by (auto split: prod.splits)
qed


lemma slots_update [simp]:
  "slots (st\<lparr>directive_accept := a\<rparr>) = slots st"
  "slots (st\<lparr>directive_state := e\<rparr>) = slots st"
  "slots (st\<lparr>directive_name := n\<rparr>) = slots st"
  "slots (st\<lparr>directive_nestLevel := l\<rparr>) = slots st"
  "slots (st\<lparr>directive_ifdef := fs\<rparr>) = slots st"
  "slots (st\<lparr>tagEntries := ts\<rparr>) = slots st"
  "slots (st\<lparr>File := f\<rparr>) = slots st"
  by (simp_all add: slots_def)

lemma readDirective_slots: "slots (snd (snd (readDirective c m st))) = slots st"
  using readDirectiveLoop_slots [of 0 m c "[]" st]
  by (simp add: readDirective_def split_beta)

lemma readIdentifier_slots: "slots (readIdentifier env c st) = slots st"
  using readIdentifierLoop_slots [of env c "[]" st]
  by (simp add: readIdentifier_def split_beta)

lemma isComment_slots: "slots (snd (isComment st)) = slots st"
  using getc_slots [of st] by (simp add: isComment_def split_beta)

lemma skipOverCComment_slots: "slots (snd (skipOverCComment st)) = slots st"
  using getc_slots [of st] blockCommentLoop_slots [of 42]
  by (simp add: skipOverCComment_def split_beta)

lemma skipOverDComment_slots: "slots (snd (skipOverDComment st)) = slots st"
  using getc_slots [of st] blockCommentLoop_slots [of 43]
  by (simp add: skipOverDComment_def split_beta)

lemma skipToEndOfString_slots: "slots (snd (skipToEndOfString env b st)) = slots st"
  by (simp add: skipToEndOfString_def skipToEndOfStringLoop_slots)

lemma skipToEndOfChar_slots: "slots (snd (skipToEndOfChar env st)) = slots st"
  by (simp add: skipToEndOfChar_def skipToEndOfCharLoop_slots)

lemma skipToEndOfCxxRawLiteralString_slots:
  "slots (snd (skipToEndOfCxxRawLiteralString env st)) = slots st"
  using getc_slots [of st]
  by (simp add: skipToEndOfCxxRawLiteralString_def skipToEndOfString_slots
      rawLiteralLoop_slots split_beta)

lemma makeDefineTag_slots: "slots (makeDefineTag env n p st) = slots st"
  by (simp add: makeDefineTag_def Let_def)

lemma directiveDefine_slots: "slots (directiveDefine env c st) = slots st"
proof -
  let ?st1 = "readIdentifier env c st"
  obtain nc st2 where g: "getcFromInputFile ?st1 = (nc, st2)"
    by (cases "getcFromInputFile ?st1")
  from getc_slots' [OF g] readIdentifier_slots [of env c st] g show ?thesis
    by (simp add: directiveDefine_def Let_def makeDefineTag_slots)
qed

lemma directivePragma_slots: "slots (directivePragma env c st) = slots st"
proof -
  let ?st1 = "readIdentifier env c st"
  obtain c1 st2 where g: "pragmaSkipSpaces ?st1 = (c1, st2)"
    by (cases "pragmaSkipSpaces ?st1")
  from pragmaSkipSpaces_slots [of ?st1] readIdentifier_slots [of env c st] g
    readIdentifier_slots [of env c1 st2]
  show ?thesis
    by (simp add: directivePragma_def Let_def makeDefineTag_slots)
qed

lemma pushConditional_slots: "slots (snd (pushConditional env b st)) = slots st"
  by (simp add: pushConditional_def Let_def)

lemma popConditional_slots: "slots (snd (popConditional st)) = slots st"
  by (simp add: popConditional_def Let_def)

lemma isIgnoreBranch_slots: "slots (snd (isIgnoreBranch st)) = slots st"
  by (simp add: isIgnoreBranch_def Let_def)

lemma setIgnore_slots: "slots (snd (setIgnore b st)) = slots st"
  by (simp add: setIgnore_def)

lemma chooseBranch_slots: "slots (chooseBranch st) = slots st"
  by (simp add: chooseBranch_def Let_def)

lemma directiveIf_slots: "slots (snd (directiveIf env c st)) = slots st"
  using pushConditional_slots [of env "c \<noteq> 48" st]
  by (simp add: directiveIf_def split_beta)

lemma directiveHash_slots: "slots (snd (directiveHash env c st)) = slots st"
proof -
  obtain b buf st1 where r: "readDirective c MaxDirectiveName st = (b, buf, st1)"
    by (cases "readDirective c MaxDirectiveName st") auto
  obtain ib st2 where i: "isIgnoreBranch st1 = (ib, st2)" by (cases "isIgnoreBranch st1")
  obtain sb st3 where si: "setIgnore ib st2 = (sb, st3)" by (cases "setIgnore ib st2")
  obtain pb st4 where p: "popConditional st1 = (pb, st4)" by (cases "popConditional st1")
  from readDirective_slots [of c MaxDirectiveName st] r have f1: "slots st1 = slots st" by simp
  from isIgnoreBranch_slots [of st1] i f1 have f2: "slots st2 = slots st" by simp
  from setIgnore_slots [of ib st2] si f2 have f3: "slots st3 = slots st" by simp
  from popConditional_slots [of st1] p f1 have f4: "slots st4 = slots st" by simp
  show ?thesis
    unfolding directiveHash_def r i si p Let_def prod.case
    by (simp add: f1 f3 f4 chooseBranch_slots)
qed

lemma handleDirective_slots: "slots (snd (handleDirective env c st)) = slots st"
  by (cases "directive_state st")
     (simp_all add: handleDirective_def Let_def directiveDefine_slots directiveHash_slots
        directiveIf_slots directivePragma_slots)

lemma enterLabel_slots: "slots (outState (enterLabel env c d i st)) = slots st"
  using handleDirective_slots [of env c "st\<lparr>directive_accept := False\<rparr>"]
  by (simp add: enterLabel_def outState_def Let_def split_beta)

lemma caseHash_slots: "slots (outState (caseHash c d i st)) = slots st"
  by (simp add: caseHash_def outState_def)

lemma caseBackslash_slots: "slots (outState (caseBackslash c d i st)) = slots st"
  using getc_slots [of st]
  by (simp add: caseBackslash_def outState_def split_beta)

lemma caseSlash_slots: "slots (outState (caseSlash c d i st)) = slots st"
proof -
  obtain k st1 where ic: "isComment st = (k, st1)" by (cases "isComment st")
  from isComment_slots [of st] ic have s1: "slots st1 = slots st" by simp
  from s1 ic skipOverCComment_slots [of st1] skipOverDComment_slots [of st1]
    skipOverCplusComment_slots [of st1]
  show ?thesis
    by (auto simp add: caseSlash_def outState_def split_beta)
qed

lemma caseQuestion_slots: "slots (outState (caseQuestion c d i st)) = slots st"
proof -
  obtain n st1 where g: "getcFromInputFile st = (n, st1)" by (cases "getcFromInputFile st")
  obtain n2 st2 where g2: "getcFromInputFile st1 = (n2, st2)" by (cases "getcFromInputFile st1")
  note s1 = getc_slots' [OF g] and s2 = getc_slots' [OF g2]
  from s1 s2 g g2 caseBackslash_slots [of BACKSLASH d i st2] caseHash_slots [of 35 d i st2]
  show ?thesis
    by (simp add: caseQuestion_def) (simp add: outState_def)
qed

lemma caseLess_slots: "slots (outState (caseLess env c d i st)) = slots st"
proof -
  obtain n st1 where g: "getcFromInputFile st = (n, st1)" by (cases "getcFromInputFile st")
  from getc_slots' [OF g] g show ?thesis by (simp add: caseLess_def enterLabel_slots)
qed

lemma caseColon_slots: "slots (outState (caseColon env c d i st)) = slots st"
proof -
  obtain n st1 where g: "getcFromInputFile st = (n, st1)" by (cases "getcFromInputFile st")
  from getc_slots' [OF g] g show ?thesis by (simp add: caseColon_def enterLabel_slots)
qed

lemma casePercent_slots: "slots (outState (casePercent env c d i st)) = slots st"
proof -
  obtain n st1 where g: "getcFromInputFile st = (n, st1)" by (cases "getcFromInputFile st")
  from getc_slots' [OF g] g show ?thesis
    by (simp add: casePercent_def enterLabel_slots caseHash_slots)
qed

lemma caseDefault_slots: "slots (outState (caseDefault env c d i st)) = slots st"
proof -
  obtain n st1 where g: "getcFromInputFile st = (n, st1)" by (cases "getcFromInputFile st")
  note s1 = getc_slots' [OF g]
  let ?a = "st1\<lparr>directive_accept := False\<rparr>"
  have s: "slots (snd (skipToEndOfString env True ?a)) = slots st"
    using skipToEndOfString_slots [of env True ?a] s1 by simp
  have r: "slots (snd (skipToEndOfCxxRawLiteralString env ?a)) = slots st"
    using skipToEndOfCxxRawLiteralString_slots [of env ?a] s1 by simp
  have e: "slots (outState (enterLabel env c d i (fileUngetc n st1))) = slots st"
    using enterLabel_slots [of env c d i "fileUngetc n st1"] s1 by simp
  note e0 = enterLabel_slots [of env c d i st]
  from s r e e0 g show ?thesis
    by (auto simp add: caseDefault_def Let_def outState_def split_beta)
qed

lemma cppSwitch_slots: "slots (outState (cppSwitch env c d i st)) = slots st"
proof -
  have s: "slots (snd (skipToEndOfString env False (st\<lparr>directive_accept := False\<rparr>)))
      = slots st"
    using skipToEndOfString_slots [of env False "st\<lparr>directive_accept := False\<rparr>"] by simp
  have ch: "slots (snd (skipToEndOfChar env (st\<lparr>directive_accept := False\<rparr>))) = slots st"
    using skipToEndOfChar_slots [of env "st\<lparr>directive_accept := False\<rparr>"] by simp
  from s ch caseHash_slots [of c d i st] caseSlash_slots [of c d i st]
    caseBackslash_slots [of c d i st] caseQuestion_slots [of c d i st]
    caseLess_slots [of env c d i st] caseColon_slots [of env c d i st]
    casePercent_slots [of env c d i st] caseDefault_slots [of env c d i st]
  show ?thesis
    by (auto simp add: cppSwitch_def split_beta outState_def)
qed

lemma cppGetcLoop_slots: "slots (snd (cppGetcLoop env d i st)) = slots st"
proof (induction env d i st rule: cppGetcLoop.induct)
  case (1 env d i st)
  obtain c st1 where g: "getcFromInputFile st = (c, st1)" by (cases "getcFromInputFile st")
  obtain c1 d1 i1 st2 where sw: "cppSwitch env c d i st1 = (c1, d1, i1, st2)"
    by (cases "cppSwitch env c d i st1") auto
  from cppSwitch_slots [of env c d i st1] sw getc_slots' [OF g]
  have s2: "slots st2 = slots st" by (simp add: outState_def)
  show ?case
  proof (cases "d1 \<or> i1")
    case True
    from "1.IH" [OF g [symmetric] sw [symmetric] _ _ True] g sw True s2
    show ?thesis by (subst cppGetcLoop.simps) simp
  next
    case False
    with g sw s2 show ?thesis by (subst cppGetcLoop.simps) simp
  qed
qed

lemmas cpp_eval =
  cppGetc_def cppUngetc_def cppGetcLoop.simps cppSwitch_def caseDefault_def enterLabel_def
  caseHash_def caseBackslash_def caseSlash_def caseQuestion_def caseLess_def caseColon_def
  casePercent_def handleDirective_def directiveHash_def directiveIf_def directiveDefine_def
  directivePragma_def pragmaSkipSpaces.simps makeDefineTag_def readIdentifier_def
  readIdentifierLoop.simps isComment_def skipOverCComment_def skipOverDComment_def
  blockCommentLoop.simps skipOverCplusComment.simps skipToEndOfString_def
  skipToEndOfStringLoop.simps skipToEndOfChar_def skipToEndOfCharLoop.simps strchrDHOB_def
  toupper_def isalnum_def
  pushConditional_def popConditional_def isIgnore_def setIgnore_def isIgnoreBranch_def
  chooseBranch_def currentConditional_def cstring_def cppInit_def
  exampleEnv_def MaxCppNestingLevel_def NEWLINE_def BACKSLASH_def DOUBLE_QUOTE_def
  SINGLE_QUOTE_def Let_def

text \<open>
  C9. For a character \<open>c\<close> other than NUL, \<^verbatim>\<open>cppUngetc (c)\<close> followed by
  \<^verbatim>\<open>cppGetc ()\<close> returns \<open>c\<close>; the state is the one before the two calls with the
  second slot cleared (the very same state when the second slot was empty, as the
  assertion of \<^verbatim>\<open>cppUngetc\<close> asks), so the input file is neither read nor changed.
  For NUL the round trip fails: \<^verbatim>\<open>cppGetc\<close> takes the NUL in the first slot for
  an empty slot and reads the file instead, and the character pushed back before it
  stays in the second slot behind the NUL. From a state \<open>s\<close> with an empty first slot
  and \<open>x\<close> in the second, \<^verbatim>\<open>cppGetc\<close> keeps reading the file and leaves the slots
  as they are, and \<^verbatim>\<open>cppUngetc\<close> overwrites the second slot with the NUL of the
  first: \<open>x\<close> never reaches the first slot, from which alone it could be returned.
\<close>

theorem cppUngetc_cppGetc:
  "(c \<noteq> 0 \<longrightarrow>
      cppGetc env (cppUngetc c st) = (c, st\<lparr>ungetch2 := 0\<rparr>)
      \<and> (ungetch2 st = 0 \<longrightarrow> cppGetc env (cppUngetc c st) = (c, st)))
   \<and> cppGetc env (cppUngetc 0 st) = cppGetcLoop env False False (cppUngetc 0 st)
   \<and> slots (snd (cppGetc env (cppUngetc 0 st))) = (0, ungetch st)
   \<and> (slots s = (0, x) \<longrightarrow>
        cppGetc env s = cppGetcLoop env False False s
        \<and> slots (snd (cppGetc env s)) = (0, x)
        \<and> slots (cppUngetc y s) = (y, 0))"
proof -
  have a: "c \<noteq> 0 \<Longrightarrow> cppGetc env (cppUngetc c st) = (c, st\<lparr>ungetch2 := 0\<rparr>)"
    by (simp add: cppGetc_def cppUngetc_def)
  have b: "c \<noteq> 0 \<Longrightarrow> ungetch2 st = 0 \<Longrightarrow> cppGetc env (cppUngetc c st) = (c, st)"
    by (simp add: cppGetc_def cppUngetc_def)
  have n: "cppGetc env (cppUngetc 0 st) = cppGetcLoop env False False (cppUngetc 0 st)"
    by (simp add: cppGetc_def cppUngetc_def)
  have l: "slots (snd (cppGetc env (cppUngetc 0 st))) = (0, ungetch st)"
    unfolding n cppGetcLoop_slots by (simp add: slots_def cppUngetc_def)
  have s: "cppGetc env s = cppGetcLoop env False False s"
    "slots (snd (cppGetc env s)) = (0, x)" "slots (cppUngetc y s) = (y, 0)"
    if "slots s = (0, x)"
  proof -
    from that have u: "ungetch s = 0" by (simp add: slots_def)
    then show g: "cppGetc env s = cppGetcLoop env False False s" by (simp add: cppGetc_def)
    show "slots (snd (cppGetc env s)) = (0, x)" unfolding g cppGetcLoop_slots by (rule that)
    show "slots (cppUngetc y s) = (y, 0)" using u by (simp add: slots_def cppUngetc_def)
  qed
  from a b n l s show ?thesis by blast
qed

lemma cppGetc_example_a:
  "fst (cppGetc exampleEnv (cppUngetc 0 (cppUngetc 120 (Cpp (openFile ''ab''))))) = 97"
  by (simp add: cpp_eval directive_eval)

theorem cppUngetc_cppGetc_witness:
  "(120 :: int) \<noteq> 0 \<and> ungetch2 (Cpp (openFile ''ab'')) = 0
   \<and> slots (cppUngetc 0 (cppUngetc 120 (Cpp (openFile ''ab'')))) = (0, 120)
   \<and> cppGetc exampleEnv (cppUngetc 120 (Cpp (openFile ''ab''))) = (120, Cpp (openFile ''ab''))
   \<and> fst (cppGetc exampleEnv (cppUngetc 0 (cppUngetc 120 (Cpp (openFile ''ab''))))) = 97
   \<and> slots (snd (cppGetc exampleEnv (cppUngetc 0 (cppUngetc 120 (Cpp (openFile ''ab''))))))
       = (0, 120)
   \<and> slots (cppUngetc 121 (cppUngetc 0 (cppUngetc 120 (Cpp (openFile ''ab''))))) = (121, 0)"
proof -
  let ?st = "Cpp (openFile ''ab'')"
  let ?s = "cppUngetc 0 (cppUngetc 120 ?st)"
  have h: "(120 :: int) \<noteq> 0" "ungetch2 ?st = 0" "slots ?s = (0, 120)"
    by (simp_all add: Cpp_def slots_def cppUngetc_def)
  note inst = cppUngetc_cppGetc [of 120 exampleEnv ?st ?s 120 121]
  from inst h have r: "cppGetc exampleEnv (cppUngetc 120 ?st) = (120, ?st)" by blast
  from inst h have k: "slots (snd (cppGetc exampleEnv ?s)) = (0, 120)"
    "slots (cppUngetc 121 ?s) = (121, 0)" by blast+
  from h r k cppGetc_example_a show ?thesis by blast
qed

section \<open>End of input inside a comment or a literal\<close>

lemma of_char_int_eq: "(of_char x :: int) = of_char y \<longleftrightarrow> x = y"
  by simp

lemma slash47: "(of_char y :: int) = 47 \<longleftrightarrow> y = CHR ''/''"
  using of_char_int_eq [of y "CHR ''/''"] by simp

lemma getc_plain:
  assumes "ungetchBuf (File st) = []"
  shows "pending (File st) = [] \<Longrightarrow> getcFromInputFile st = (EOF, st)"
    and "pending (File st) = x # xs \<Longrightarrow> getcFromInputFile st
      = (of_char x, st\<lparr>File := (File st)\<lparr>pending := xs, consumed := x # consumed (File st)\<rparr>\<rparr>)"
  using assms by (simp_all add: getcFromInputFile_def)

lemma blockCommentLoop_EOF:
  assumes "ungetchBuf (File st) = []"
    and "(c = EOF \<and> pending (File st) = [])
         \<or> (\<exists>x. c = of_char x \<and> \<not> hasCommentEnd star (x # pending (File st)))"
  shows "fst (blockCommentLoop (of_char star) c st) = EOF
         \<and> atEOF (snd (blockCommentLoop (of_char star) c st))"
  using assms
proof (induction "of_char star :: int" c st rule: blockCommentLoop.induct)
  case (1 c st)
  show ?case
  proof (cases "c = EOF")
    case True
    with "1.prems" of_char_not_EOF have "pending (File st) = []" by metis
    with True "1.prems"(1) show ?thesis
      by (subst (1 2) blockCommentLoop.simps) (simp add: atEOF_def)
  next
    case ne: False
    with "1.prems"(2) obtain x where x: "c = of_char x"
      and h: "\<not> hasCommentEnd star (x # pending (File st))" by blast
    show ?thesis
    proof (cases "pending (File st)")
      case Nil
      note g = getc_plain(1) [OF "1.prems"(1) Nil]
      have p: "(EOF = EOF \<and> pending (File st) = [])
         \<or> (\<exists>x. EOF = of_char x \<and> \<not> hasCommentEnd star (x # pending (File st)))"
        using Nil by simp
      show ?thesis
      proof (cases "c \<noteq> of_char star")
        case True
        from "1.hyps"(1) [OF ne True g [symmetric] "1.prems"(1) p] g ne True
        show ?thesis by (subst (1 2) blockCommentLoop.simps) simp
      next
        case False
        have n47: "EOF \<noteq> 47" by (simp add: EOF_def)
        from "1.hyps"(2) [OF ne False g [symmetric] n47 "1.prems"(1) p] g ne False n47
        show ?thesis by (subst (1 2) blockCommentLoop.simps) simp
      qed
    next
      case (Cons y ys)
      let ?st1 = "st\<lparr>File := (File st)\<lparr>pending := ys, consumed := y # consumed (File st)\<rparr>\<rparr>"
      note g = getc_plain(2) [OF "1.prems"(1) Cons]
      have u: "ungetchBuf (File ?st1) = []" using "1.prems"(1) by simp
      from h Cons have h': "\<not> hasCommentEnd star (y # ys)" by simp
      then have p: "(of_char y = EOF \<and> pending (File ?st1) = [])
         \<or> (\<exists>x. (of_char y :: int) = of_char x \<and> \<not> hasCommentEnd star (x # pending (File ?st1)))"
        by auto
      show ?thesis
      proof (cases "c \<noteq> of_char star")
        case True
        from "1.hyps"(1) [OF ne True g [symmetric] u p] g ne True
        show ?thesis by (subst (1 2) blockCommentLoop.simps) simp
      next
        case False
        with x have "x = star" by simp
        with h Cons have "y \<noteq> CHR ''/''" by simp
        then have n47: "(of_char y :: int) \<noteq> 47" by (simp add: slash47)
        from "1.hyps"(2) [OF ne False g [symmetric] n47 u p] g ne False n47
        show ?thesis by (subst (1 2) blockCommentLoop.simps) simp
      qed
    qed
  qed
qed


lemma getc_atEOF: "atEOF st \<Longrightarrow> getcFromInputFile st = (EOF, st)"
  by (simp add: atEOF_def getcFromInputFile_def)

lemma cppGetc_atEOF:
  assumes "ungetch st = 0" and "atEOF st"
  shows "cppGetc env st = (EOF, st)"
  using assms getc_atEOF [OF assms(2)]
  by (simp add: cppGetc_def cppGetcLoop.simps cppSwitch_EOF)

lemmas switch_consts =
  EOF_def TAB_def SPACE_def NEWLINE_def DOUBLE_QUOTE_def SINGLE_QUOTE_def BACKSLASH_def

lemmas start_eval = startState_def cppInit_def Cpp_def openFile_def

lemma getc_noEOF:
  assumes "EOF \<notin> set (ungetchBuf (File st))" and "getcFromInputFile st = (c, st1)"
  shows "EOF \<notin> set (ungetchBuf (File st1))" and "c = EOF \<Longrightarrow> atEOF st1"
  using assms of_char_not_EOF
  by (auto simp: getcFromInputFile_def atEOF_def split: list.splits)

lemma blockCommentLoop_atEOF:
  assumes "EOF \<notin> set (ungetchBuf (File st))" and "c = EOF \<longrightarrow> atEOF st"
    and "fst (blockCommentLoop star c st) = EOF"
  shows "atEOF (snd (blockCommentLoop star c st))"
  using assms
proof (induction star c st rule: blockCommentLoop.induct)
  case (1 star c st)
  obtain c1 st1 where g: "getcFromInputFile st = (c1, st1)" by (cases "getcFromInputFile st")
  note n1 = getc_noEOF [OF "1.prems"(1) g]
  show ?case
  proof (cases "c = EOF")
    case True
    with "1.prems"(2) show ?thesis by (subst blockCommentLoop.simps) simp
  next
    case ne: False
    show ?thesis
    proof (cases "c \<noteq> star")
      case True
      have e: "blockCommentLoop star c st = blockCommentLoop star c1 st1"
        using ne True g by (subst blockCommentLoop.simps) simp
      from "1.IH"(1) [OF ne True g [symmetric] n1(1)] n1(2) "1.prems"(3) e
      show ?thesis by simp
    next
      case st: False
      show ?thesis
      proof (cases "c1 \<noteq> 47")
        case True
        have e: "blockCommentLoop star c st = blockCommentLoop star c1 st1"
          using ne st True g by (subst blockCommentLoop.simps) simp
        from "1.IH"(2) [OF ne st g [symmetric] True n1(1)] n1(2) "1.prems"(3) e
        show ?thesis by simp
      next
        case False
        then have "blockCommentLoop star c st = (SPACE, st1)"
          using ne st g by (subst blockCommentLoop.simps) simp
        with "1.prems"(3) show ?thesis by (simp add: SPACE_def EOF_def)
      qed
    qed
  qed
qed

lemma skipOverCComment_atEOF:
  assumes "EOF \<notin> set (ungetchBuf (File st))" and "fst (skipOverCComment st) = EOF"
  shows "atEOF (snd (skipOverCComment st))"
proof -
  obtain c st1 where g: "getcFromInputFile st = (c, st1)" by (cases "getcFromInputFile st")
  from getc_noEOF [OF assms(1) g] assms(2) g
    blockCommentLoop_atEOF [of st1 c 42]
  show ?thesis by (simp add: skipOverCComment_def)
qed

lemma skipOverDComment_atEOF:
  assumes "EOF \<notin> set (ungetchBuf (File st))" and "fst (skipOverDComment st) = EOF"
  shows "atEOF (snd (skipOverDComment st))"
proof -
  obtain c st1 where g: "getcFromInputFile st = (c, st1)" by (cases "getcFromInputFile st")
  from getc_noEOF [OF assms(1) g] assms(2) g
    blockCommentLoop_atEOF [of st1 c 43]
  show ?thesis by (simp add: skipOverDComment_def)
qed

lemma skipOverCplusComment_atEOF:
  assumes "EOF \<notin> set (ungetchBuf (File st))" and "fst (skipOverCplusComment st) = EOF"
  shows "atEOF (snd (skipOverCplusComment st))"
  using assms
proof (induction st rule: skipOverCplusComment.induct)
  case (1 st)
  obtain c st1 where g: "getcFromInputFile st = (c, st1)" by (cases "getcFromInputFile st")
  obtain c2 st2 where g2: "getcFromInputFile st1 = (c2, st2)" by (cases "getcFromInputFile st1")
  note n1 = getc_noEOF [OF "1.prems"(1) g]
  note n2 = getc_noEOF [OF n1(1) g2]
  show ?case
  proof (cases "c \<noteq> EOF")
    case False
    with g n1(2) show ?thesis by (subst skipOverCplusComment.simps) simp
  next
    case ne: True
    show ?thesis
    proof (cases "c = BACKSLASH")
      case True
      have e: "skipOverCplusComment st = skipOverCplusComment st2"
        using ne True g g2 by (subst skipOverCplusComment.simps) simp
      from "1.IH"(1) [OF g [symmetric] ne True] n2(1) g2 "1.prems"(2) e
      show ?thesis by simp
    next
      case nbs: False
      show ?thesis
      proof (cases "c = NEWLINE")
        case True
        then have "skipOverCplusComment st = (NEWLINE, st1)"
          using ne nbs g by (subst skipOverCplusComment.simps) simp
        with "1.prems"(2) show ?thesis by (simp add: NEWLINE_def EOF_def)
      next
        case False
        have e: "skipOverCplusComment st = skipOverCplusComment st1"
          using ne nbs False g by (subst skipOverCplusComment.simps) simp
        from "1.IH"(2) [OF g [symmetric] ne nbs False n1(1)] "1.prems"(2) e
        show ?thesis by simp
      qed
    qed
  qed
qed

lemma skipToEndOfStringLoop_unterminated:
  assumes "ungetchBuf (File st) = []" and "\<not> stringEnds b (pending (File st))"
  shows "atEOF (skipToEndOfStringLoop b st)"
  using assms
proof (induction b st rule: skipToEndOfStringLoop.induct)
  case (1 b st)
  show ?case
  proof (cases "pending (File st)")
    case Nil
    from getc_plain(1) [OF "1.prems"(1) Nil] Nil "1.prems"(1) show ?thesis
      by (subst skipToEndOfStringLoop.simps) (simp add: atEOF_def)
  next
    case (Cons y ys)
    let ?st1 = "st\<lparr>File := (File st)\<lparr>pending := ys, consumed := y # consumed (File st)\<rparr>\<rparr>"
    note g = getc_plain(2) [OF "1.prems"(1) Cons]
    have ne: "(of_char y :: int) \<noteq> EOF" by (rule of_char_not_EOF)
    have u: "ungetchBuf (File ?st1) = []" using "1.prems"(1) by simp
    have bs: "(of_char y :: int) = BACKSLASH \<longleftrightarrow> y = CHR 0x5C"
      using of_char_int_eq [of y "CHR 0x5C"] by (simp add: BACKSLASH_def)
    have dq: "(of_char y :: int) = DOUBLE_QUOTE \<longleftrightarrow> y = CHR 0x22"
      using of_char_int_eq [of y "CHR 0x22"] by (simp add: DOUBLE_QUOTE_def)
    show ?thesis
    proof (cases "of_char y = BACKSLASH \<and> \<not> b")
      case True
      have u2: "ungetchBuf (File (snd (getcFromInputFile ?st1))) = []"
        using u by (cases ys) (simp_all add: getcFromInputFile_def)
      have q2: "\<not> stringEnds b (pending (File (snd (getcFromInputFile ?st1))))"
        using u "1.prems"(2) Cons True bs
        by (cases ys) (simp_all add: getcFromInputFile_def)
      from "1.IH"(1) [OF g [symmetric] ne True u2 q2] g ne True
      show ?thesis by (subst skipToEndOfStringLoop.simps) simp
    next
      case False
      from False bs have nb: "\<not> (y = CHR 0x5C \<and> \<not> b)" by simp
      have nq: "y \<noteq> CHR 0x22"
        using "1.prems"(2) Cons nb by (cases ys) (simp_all split: if_splits)
      have q: "\<not> stringEnds b ys"
        using "1.prems"(2) Cons nb nq by (cases ys) (simp_all split: if_splits)
      from nq have nq': "(of_char y :: int) \<noteq> DOUBLE_QUOTE" using dq by simp
      from q have q': "\<not> stringEnds b (pending (File ?st1))" by simp
      from "1.IH"(2) [OF g [symmetric] ne False nq' u q'] g ne False nq'
      show ?thesis by (subst skipToEndOfStringLoop.simps) auto
    qed
  qed
qed


lemma skipToEndOfCharLoop_unterminated:
  assumes "ungetchBuf (File st) = []"
    and "list_all (\<lambda>x. x \<noteq> CHR 0x27 \<and> x \<noteq> CHR 0x0A \<and> x \<noteq> CHR 0x5C) (pending (File st))"
    and "v = 0"
    and "n = 0 \<longrightarrow> pending (File st) = []
           \<or> \<not> strchrDHOB (toupper (of_char (hd (pending (File st)))))"
  shows "atEOF (skipToEndOfCharLoop n v st)"
  using assms
proof (induction n v st rule: skipToEndOfCharLoop.induct)
  case (1 n v st)
  show ?case
  proof (cases "pending (File st)")
    case Nil
    from getc_plain(1) [OF "1.prems"(1) Nil] Nil "1.prems"(1) show ?thesis
      by (subst skipToEndOfCharLoop.simps) (simp add: atEOF_def)
  next
    case (Cons y ys)
    let ?st1 = "st\<lparr>File := (File st)\<lparr>pending := ys, consumed := y # consumed (File st)\<rparr>\<rparr>"
    note g = getc_plain(2) [OF "1.prems"(1) Cons]
    have ne: "(of_char y :: int) \<noteq> EOF" by (rule of_char_not_EOF)
    have u: "ungetchBuf (File ?st1) = []" using "1.prems"(1) by simp
    have q: "list_all (\<lambda>x. x \<noteq> CHR 0x27 \<and> x \<noteq> CHR 0x0A \<and> x \<noteq> CHR 0x5C)
               (pending (File ?st1))"
      using "1.prems"(2) Cons by simp
    from "1.prems"(2) Cons have y: "y \<noteq> CHR 0x27" "y \<noteq> CHR 0x0A" "y \<noteq> CHR 0x5C" by simp_all
    have nb: "(of_char y :: int) \<noteq> BACKSLASH"
      using y(3) of_char_int_eq [of y "CHR 0x5C"] by (simp add: BACKSLASH_def)
    have nq: "(of_char y :: int) \<noteq> SINGLE_QUOTE"
      using y(1) of_char_int_eq [of y "CHR 0x27"] by (simp add: SINGLE_QUOTE_def)
    have nn: "(of_char y :: int) \<noteq> NEWLINE"
      using y(2) of_char_int_eq [of y "CHR 0x0A"] by (simp add: NEWLINE_def)
    have nd: "\<not> (n + 1 = 1 \<and> strchrDHOB (toupper (of_char y)))"
      using "1.prems"(4) Cons by auto
    have nv: "\<not> (v \<noteq> 0 \<and> \<not> isalnum (of_char y))" using "1.prems"(3) by simp
    have n1: "n + 1 = 0 \<longrightarrow> pending (File ?st1) = []
           \<or> \<not> strchrDHOB (toupper (of_char (hd (pending (File ?st1)))))" by simp
    from "1.IH"(3) [OF g [symmetric] ne nb nq nn nd nv u q "1.prems"(3) n1] g ne nb nq nn nd nv
    show ?thesis by (subst skipToEndOfCharLoop.simps) auto
  qed
qed

lemma loop_step:
  assumes "getcFromInputFile st = (c, st1)" and "cppSwitch env c d i st1 = (c1, d1, i1, st2)"
  shows "cppGetcLoop env d i st = (if d1 \<or> i1 then cppGetcLoop env d1 i1 st2 else (c1, st2))"
  using assms by (subst cppGetcLoop.simps) simp

lemma loop_atEOF: "atEOF st \<Longrightarrow> cppGetcLoop env d i st = (EOF, st)"
  using loop_step [OF getc_atEOF cppSwitch_EOF, of st env d i] by simp

lemma loop_exhausted:
  assumes "getcFromInputFile st = (c, st1)" and "cppSwitch env c d i st1 = (r, d, i, S)"
    and "atEOF S"
  shows "cppGetcLoop env d i st = (if d \<or> i then EOF else r, S)"
  using loop_step [OF assms(1,2)] loop_atEOF [OF assms(3), of env d i] by simp

lemma loop_ungetch: "ungetch (snd (cppGetcLoop env d i st)) = ungetch st"
  using cppGetcLoop_slots [of env d i st] by (simp add: slots_def)

lemma loop_then_EOF:
  assumes "ungetch st = 0" and "cppGetcLoop env d i st = (c, S)" and "atEOF S"
  shows "fst (cppGetc env (snd (cppGetcLoop env d i st))) = EOF"
proof -
  from loop_ungetch [of env d i st] assms(1,2) have "ungetch S = 0" by simp
  from cppGetc_atEOF [OF this assms(3)] assms(2) show ?thesis by simp
qed


lemma blockComment_unterminated:
  assumes "ungetchBuf (File s) = []" and "\<not> hasCommentEnd x (pending (File s))"
  shows "fst (blockCommentLoop (of_char x) (fst (getcFromInputFile s))
            (snd (getcFromInputFile s))) = EOF"
proof -
  obtain c s1 where g: "getcFromInputFile s = (c, s1)" by (cases "getcFromInputFile s")
  have u: "ungetchBuf (File s1) = []"
    using g assms(1) by (cases "pending (File s)") (auto simp: getcFromInputFile_def)
  have p: "(c = EOF \<and> pending (File s1) = [])
         \<or> (\<exists>y. c = of_char y \<and> \<not> hasCommentEnd x (y # pending (File s1)))"
    using g assms by (cases "pending (File s)") (auto simp: getcFromInputFile_def)
  from blockCommentLoop_EOF [OF u p] g show ?thesis by simp
qed

lemma caseSlash_block:
  assumes "getcFromInputFile st1 = (k, st2)" and "k = 42 \<or> k = 43"
  shows "caseSlash 47 d i st1
      = (fst (if k = 42 then skipOverCComment st2 else skipOverDComment st2), d, i,
         snd (if k = 42 then skipOverCComment st2 else skipOverDComment st2))"
  using assms by (auto simp add: caseSlash_def isComment_def split_beta)

lemma loop_block_comment:
  assumes u: "ungetch st = 0"
    and g1: "getcFromInputFile st = (47, st1)" and g2: "getcFromInputFile st1 = (k, st2)"
    and k: "k = 42 \<or> k = 43"
    and n: "EOF \<notin> set (ungetchBuf (File st2))"
    and e: "fst (if k = 42 then skipOverCComment st2 else skipOverDComment st2) = EOF"
  shows "fst (cppGetcLoop env d i st) = EOF
         \<and> fst (cppGetc env (snd (cppGetcLoop env d i st))) = EOF"
proof -
  let ?r = "if k = 42 then skipOverCComment st2 else skipOverDComment st2"
  have a: "atEOF (snd ?r)"
    using skipOverCComment_atEOF [OF n] skipOverDComment_atEOF [OF n] e k by auto
  have sw: "cppSwitch env 47 d i st1 = (EOF, d, i, snd ?r)"
    using caseSlash_block [OF g2 k, of d i] e by (simp add: cppSwitch_def switch_consts)
  from loop_exhausted [OF g1 sw a] have l: "cppGetcLoop env d i st = (EOF, snd ?r)" by simp
  from loop_then_EOF [OF u l a] l show ?thesis by simp
qed

lemma loop_string:
  assumes u: "ungetch st = 0"
    and g1: "getcFromInputFile st = (DOUBLE_QUOTE, st1)"
    and a: "atEOF (snd (skipToEndOfString env False (st1\<lparr>directive_accept := False\<rparr>)))"
  shows "fst (cppGetcLoop env d i st) = (if d \<or> i then EOF else STRING_SYMBOL env)
         \<and> fst (cppGetc env (snd (cppGetcLoop env d i st))) = EOF"
proof -
  let ?S = "snd (skipToEndOfString env False (st1\<lparr>directive_accept := False\<rparr>))"
  have sw: "cppSwitch env DOUBLE_QUOTE d i st1 = (STRING_SYMBOL env, d, i, ?S)"
    by (simp add: cppSwitch_def switch_consts skipToEndOfString_def)
  note l = loop_exhausted [OF g1 sw a]
  from loop_then_EOF [OF u l a] l show ?thesis by simp
qed

lemma loop_char:
  assumes u: "ungetch st = 0"
    and g1: "getcFromInputFile st = (SINGLE_QUOTE, st1)"
    and a: "atEOF (snd (skipToEndOfChar env (st1\<lparr>directive_accept := False\<rparr>)))"
  shows "fst (cppGetcLoop env d i st) = (if d \<or> i then EOF else CHAR_SYMBOL env)
         \<and> fst (cppGetc env (snd (cppGetcLoop env d i st))) = EOF"
proof -
  let ?S = "snd (skipToEndOfChar env (st1\<lparr>directive_accept := False\<rparr>))"
  have sw: "cppSwitch env SINGLE_QUOTE d i st1 = (CHAR_SYMBOL env, d, i, ?S)"
    by (simp add: cppSwitch_def switch_consts skipToEndOfChar_def)
  note l = loop_exhausted [OF g1 sw a]
  from loop_then_EOF [OF u l a] l show ?thesis by simp
qed

text \<open>
  C6 (as amended). At the end of the input inside an unterminated block comment
  \<^verbatim>\<open>skipOverCComment\<close> (and \<^verbatim>\<open>skipOverDComment\<close>) returns \<^verbatim>\<open>EOF\<close>, and the call of
  \<^verbatim>\<open>cppGetc\<close> whose loop read the comment returns \<^verbatim>\<open>EOF\<close>, whatever the flags
  \<^verbatim>\<open>directive\<close> and \<^verbatim>\<open>ignore\<close> are. \<^verbatim>\<open>skipToEndOfString\<close> and
  \<^verbatim>\<open>skipToEndOfChar\<close> return \<^verbatim>\<open>STRING_SYMBOL\<close> and \<^verbatim>\<open>CHAR_SYMBOL\<close> from every
  state, also when the literal runs to the end of the input (as a string does that has
  no closing quote outside an escape). When the skipper has used up the input, the call
  of \<^verbatim>\<open>cppGetc\<close> whose loop read the opening quote returns the symbol if neither
  flag is set, and \<^verbatim>\<open>EOF\<close> if the quote was read in a directive or in an ignored
  branch (the loop goes on and reads the end of the input). In every case the next call
  returns \<^verbatim>\<open>EOF\<close>. All the functions are total: no error is raised.
\<close>

theorem premature_EOF:
  assumes "ungetch st = 0"
  shows
    "fst (skipToEndOfString env b s) = STRING_SYMBOL env
     \<and> fst (skipToEndOfChar env s) = CHAR_SYMBOL env
     \<and> (ungetchBuf (File s) = [] \<and> \<not> hasCommentEnd (CHR ''*'') (pending (File s)) \<longrightarrow>
          fst (skipOverCComment s) = EOF)
     \<and> (ungetchBuf (File s) = [] \<and> \<not> hasCommentEnd (CHR ''+'') (pending (File s)) \<longrightarrow>
          fst (skipOverDComment s) = EOF)
     \<and> (ungetchBuf (File s) = [] \<and> \<not> stringEnds b (pending (File s)) \<longrightarrow>
          atEOF (snd (skipToEndOfString env b s)))
     \<and> (ungetchBuf (File s) = [] \<and> charRunsOn (pending (File s)) \<longrightarrow>
          atEOF (snd (skipToEndOfChar env s)))
     \<and> cppGetc env st = cppGetcLoop env False False st
     \<and> (getcFromInputFile st = (47, st1) \<and> getcFromInputFile st1 = (42, st2)
        \<and> EOF \<notin> set (ungetchBuf (File st2)) \<and> fst (skipOverCComment st2) = EOF \<longrightarrow>
          fst (cppGetcLoop env d i st) = EOF
          \<and> fst (cppGetc env (snd (cppGetcLoop env d i st))) = EOF)
     \<and> (getcFromInputFile st = (47, st1) \<and> getcFromInputFile st1 = (43, st2)
        \<and> EOF \<notin> set (ungetchBuf (File st2)) \<and> fst (skipOverDComment st2) = EOF \<longrightarrow>
          fst (cppGetcLoop env d i st) = EOF
          \<and> fst (cppGetc env (snd (cppGetcLoop env d i st))) = EOF)
     \<and> (getcFromInputFile st = (DOUBLE_QUOTE, st1)
        \<and> atEOF (snd (skipToEndOfString env False (st1\<lparr>directive_accept := False\<rparr>))) \<longrightarrow>
          fst (cppGetcLoop env d i st) = (if d \<or> i then EOF else STRING_SYMBOL env)
          \<and> fst (cppGetc env (snd (cppGetcLoop env d i st))) = EOF)
     \<and> (getcFromInputFile st = (SINGLE_QUOTE, st1)
        \<and> atEOF (snd (skipToEndOfChar env (st1\<lparr>directive_accept := False\<rparr>))) \<longrightarrow>
          fst (cppGetcLoop env d i st) = (if d \<or> i then EOF else CHAR_SYMBOL env)
          \<and> fst (cppGetc env (snd (cppGetcLoop env d i st))) = EOF)"
proof -
  have 1: "fst (skipToEndOfString env b s) = STRING_SYMBOL env"
    by (simp add: skipToEndOfString_def)
  have 2: "fst (skipToEndOfChar env s) = CHAR_SYMBOL env"
    by (simp add: skipToEndOfChar_def)
  have 3: "fst (skipOverCComment s) = EOF"
    if "ungetchBuf (File s) = [] \<and> \<not> hasCommentEnd (CHR ''*'') (pending (File s))"
    using blockComment_unterminated [of s "CHR ''*''"] that
    by (simp add: skipOverCComment_def split_beta)
  have 4: "fst (skipOverDComment s) = EOF"
    if "ungetchBuf (File s) = [] \<and> \<not> hasCommentEnd (CHR ''+'') (pending (File s))"
    using blockComment_unterminated [of s "CHR ''+''"] that
    by (simp add: skipOverDComment_def split_beta)
  have 5: "atEOF (snd (skipToEndOfString env b s))"
    if "ungetchBuf (File s) = [] \<and> \<not> stringEnds b (pending (File s))"
    using skipToEndOfStringLoop_unterminated [of s b] that
    by (simp add: skipToEndOfString_def)
  have 6: "atEOF (snd (skipToEndOfChar env s))"
    if "ungetchBuf (File s) = [] \<and> charRunsOn (pending (File s))"
    using skipToEndOfCharLoop_unterminated [of s 0 0] that
    by (simp add: skipToEndOfChar_def charRunsOn_def)
  have 7: "cppGetc env st = cppGetcLoop env False False st"
    using assms by (simp add: cppGetc_def)
  have 8: "fst (cppGetcLoop env d i st) = EOF
          \<and> fst (cppGetc env (snd (cppGetcLoop env d i st))) = EOF"
    if "getcFromInputFile st = (47, st1) \<and> getcFromInputFile st1 = (42, st2)
        \<and> EOF \<notin> set (ungetchBuf (File st2)) \<and> fst (skipOverCComment st2) = EOF"
    using loop_block_comment [OF assms, of st1 42 st2 env d i] that by simp
  have 9: "fst (cppGetcLoop env d i st) = EOF
          \<and> fst (cppGetc env (snd (cppGetcLoop env d i st))) = EOF"
    if "getcFromInputFile st = (47, st1) \<and> getcFromInputFile st1 = (43, st2)
        \<and> EOF \<notin> set (ungetchBuf (File st2)) \<and> fst (skipOverDComment st2) = EOF"
    using loop_block_comment [OF assms, of st1 43 st2 env d i] that by simp
  have 10: "fst (cppGetcLoop env d i st) = (if d \<or> i then EOF else STRING_SYMBOL env)
          \<and> fst (cppGetc env (snd (cppGetcLoop env d i st))) = EOF"
    if "getcFromInputFile st = (DOUBLE_QUOTE, st1)
        \<and> atEOF (snd (skipToEndOfString env False (st1\<lparr>directive_accept := False\<rparr>)))"
    using loop_string [OF assms, of st1 env d i] that by blast
  have 11: "fst (cppGetcLoop env d i st) = (if d \<or> i then EOF else CHAR_SYMBOL env)
          \<and> fst (cppGetc env (snd (cppGetcLoop env d i st))) = EOF"
    if "getcFromInputFile st = (SINGLE_QUOTE, st1)
        \<and> atEOF (snd (skipToEndOfChar env (st1\<lparr>directive_accept := False\<rparr>)))"
    using loop_char [OF assms, of st1 env d i] that by blast
  from 1 2 3 4 5 6 7 8 9 10 11 show ?thesis by blast
qed


lemma directive_string_example:
  "fst (cppGetcs exampleEnv (Suc (Suc 0))
          (startState (''#define X '' @ [CHR 0x22] @ ''abc''))) = [EOF, EOF]"
  by (simp add: cpp_eval directive_eval start_eval)

theorem premature_EOF_witness:
  "fst (cppGetc exampleEnv (startState [CHR 0x22, CHR ''a'', CHR 0x5C, CHR 0x22, CHR ''b'']))
     = STRING_SYMBOL exampleEnv
   \<and> fst (cppGetc exampleEnv (snd (cppGetc exampleEnv
        (startState [CHR 0x22, CHR ''a'', CHR 0x5C, CHR 0x22, CHR ''b''])))) = EOF
   \<and> fst (cppGetcLoop exampleEnv True False
        (startState [CHR 0x22, CHR ''a'', CHR 0x5C, CHR 0x22, CHR ''b''])) = EOF
   \<and> fst (cppGetc exampleEnv (startState (CHR 0x27 # ''a b''))) = CHAR_SYMBOL exampleEnv
   \<and> fst (cppGetc exampleEnv (snd (cppGetc exampleEnv (startState (CHR 0x27 # ''a b'')))))
       = EOF
   \<and> fst (cppGetc exampleEnv (startState ''/*a*b'')) = EOF
   \<and> fst (cppGetc exampleEnv (snd (cppGetc exampleEnv (startState ''/*a*b'')))) = EOF
   \<and> fst (cppGetcs exampleEnv (Suc (Suc 0))
          (startState (''#define X '' @ [CHR 0x22] @ ''abc''))) = [EOF, EOF]"
proof -
  have h: "ungetch (startState bytes) = 0" for bytes by (simp add: start_eval)
  let ?q = "startState [CHR 0x22, CHR ''a'', CHR 0x5C, CHR 0x22, CHR ''b'']"
  let ?q1 = "snd (getcFromInputFile ?q)"
  let ?qa = "?q1\<lparr>directive_accept := False\<rparr>"
  have gq: "getcFromInputFile ?q = (DOUBLE_QUOTE, ?q1)"
    by (simp add: start_eval getcFromInputFile_def DOUBLE_QUOTE_def)
  have uq: "ungetchBuf (File ?qa) = [] \<and> \<not> stringEnds False (pending (File ?qa))"
    by (simp add: start_eval getcFromInputFile_def)
  note Tq = premature_EOF [where st = ?q and env = exampleEnv and b = False and s = ?qa
      and ?st1.0 = ?q1 and d = False and i = False, OF h]
  note Tq' = premature_EOF [where st = ?q and env = exampleEnv and b = False and s = ?qa
      and ?st1.0 = ?q1 and d = True and i = False, OF h]
  from Tq uq have aq: "atEOF (snd (skipToEndOfString exampleEnv False ?qa))" by blast
  from Tq gq aq have 1: "fst (cppGetc exampleEnv ?q) = STRING_SYMBOL exampleEnv
      \<and> fst (cppGetc exampleEnv (snd (cppGetc exampleEnv ?q))) = EOF" by simp
  from Tq' gq aq have 2: "fst (cppGetcLoop exampleEnv True False ?q) = EOF" by simp
  let ?c = "startState (CHR 0x27 # ''a b'')"
  let ?c1 = "snd (getcFromInputFile ?c)"
  let ?ca = "?c1\<lparr>directive_accept := False\<rparr>"
  have gc: "getcFromInputFile ?c = (SINGLE_QUOTE, ?c1)"
    by (simp add: start_eval getcFromInputFile_def SINGLE_QUOTE_def)
  have uc: "ungetchBuf (File ?ca) = [] \<and> charRunsOn (pending (File ?ca))"
    by (simp add: start_eval getcFromInputFile_def charRunsOn_def strchrDHOB_def toupper_def)
  note Tc = premature_EOF [where st = ?c and env = exampleEnv and s = ?ca
      and ?st1.0 = ?c1 and d = False and i = False, OF h]
  from Tc uc have ac: "atEOF (snd (skipToEndOfChar exampleEnv ?ca))" by blast
  from Tc gc ac have 3: "fst (cppGetc exampleEnv ?c) = CHAR_SYMBOL exampleEnv
      \<and> fst (cppGetc exampleEnv (snd (cppGetc exampleEnv ?c))) = EOF" by simp
  let ?m = "startState ''/*a*b''"
  let ?m1 = "snd (getcFromInputFile ?m)"
  let ?m2 = "snd (getcFromInputFile ?m1)"
  have gm: "getcFromInputFile ?m = (47, ?m1)" "getcFromInputFile ?m1 = (42, ?m2)"
    by (simp_all add: start_eval getcFromInputFile_def)
  have um: "ungetchBuf (File ?m2) = [] \<and> \<not> hasCommentEnd (CHR ''*'') (pending (File ?m2))"
    "EOF \<notin> set (ungetchBuf (File ?m2))"
    by (simp_all add: start_eval getcFromInputFile_def)
  note Tm = premature_EOF [where st = ?m and env = exampleEnv and s = ?m2
      and ?st1.0 = ?m1 and ?st2.0 = ?m2 and d = False and i = False, OF h]
  from Tm um(1) have em: "fst (skipOverCComment ?m2) = EOF" by blast
  from Tm gm um(2) em have 4: "fst (cppGetc exampleEnv ?m) = EOF
      \<and> fst (cppGetc exampleEnv (snd (cppGetc exampleEnv ?m))) = EOF" by simp
  from 1 2 3 4 directive_string_example show ?thesis by blast
qed

text \<open>
  C6 as stated fails for the two literal skippers: at the end of the input inside the
  unterminated string \<^verbatim>\<open>"abc\<close> (and the character literal \<^verbatim>\<open>'abc\<close>) the skipper
  returns its symbol, not \<^verbatim>\<open>EOF\<close>, and so does \<^verbatim>\<open>cppGetc\<close>.
\<close>

theorem literal_skippers_not_EOF:
  "fst (skipToEndOfString exampleEnv False
          ((snd (readChars 1 (startState (CHR 0x22 # ''abc''))))\<lparr>directive_accept := False\<rparr>))
     = 211
   \<and> atEOF (snd (skipToEndOfString exampleEnv False
          ((snd (readChars 1 (startState (CHR 0x22 # ''abc''))))\<lparr>directive_accept := False\<rparr>)))
   \<and> fst (cppGetc exampleEnv (startState (CHR 0x22 # ''abc''))) = 211
   \<and> fst (skipToEndOfChar exampleEnv
          ((snd (readChars 1 (startState (CHR 0x27 # ''abc''))))\<lparr>directive_accept := False\<rparr>))
     = 195
   \<and> fst (cppGetc exampleEnv (startState (CHR 0x27 # ''abc''))) = 195
   \<and> (211 :: int) \<noteq> EOF \<and> (195 :: int) \<noteq> EOF"
  by (simp add: cpp_eval directive_eval start_eval atEOF_def)

section \<open>The body of \<^verbatim>\<open>#if 0\<close>\<close>

lemma cppGetcs_numeral:
  "cppGetcs env (numeral k) st =
     (case cppGetc env st of
        (c, st1) \<Rightarrow> (case cppGetcs env (pred_numeral k) st1 of (cs, st2) \<Rightarrow> (c # cs, st2)))"
  by (simp add: numeral_eq_Suc)















text \<open>
  Characters of the body also come back after a directive line inside it whose text
  after the directive word never reaches the label \<^verbatim>\<open>enter\<close>, such as an
  \<^verbatim>\<open>#include\<close> of a quoted file name: \<^verbatim>\<open>directiveHash\<close> has returned \<^verbatim>\<open>FALSE\<close>
  for \<^verbatim>\<open>ignore\<close>, the newline ends the directive, and the \<^verbatim>\<open>y\<close> on the next line
  is returned.
\<close>

lemma if0_include_returned:
  "fst (cppGetcs exampleEnv 5
     (startState (''#if 0'' @ [CHR 0x0A] @ ''#include '' @ [CHR 0x22] @ ''x'' @ [CHR 0x22, CHR 0x0A]
                  @ ''y'' @ [CHR 0x0A] @ ''#endif'' @ [CHR 0x0A])))
   = [10, 121, 10, 10, EOF]"
  by (simp add: cpp_eval directive_eval start_eval cppGetcs_numeral)

end
